theory Spec2Isabelle
  imports Main "HOL-Library.Extended_Nat" "HOL-Library.Sublist"
begin

section \<open>JavaScript strings\<close>

text \<open>
  A JavaScript string is a sequence of UTF-16 code units. The model is \<^typ>\<open>string\<close>:
  a \<^typ>\<open>char\<close> stands for a code unit below 256, so every statement below is about
  text of such code units (ASCII and Latin-1). Length is the number of code units, as in
  JavaScript.

  \<open>isSpace\<close> is the set that \<open>String.prototype.trim\<close> and the class \<open>\s\<close> remove
  (WhiteSpace and LineTerminator of ECMAScript), cut to code units below 256:
  TAB, LF, VT, FF, CR, SP and NBSP.
\<close>

definition isSpace :: "char \<Rightarrow> bool" where
  "isSpace c = (c \<in> set [CHR 0x09, CHR 0x0A, CHR 0x0B, CHR 0x0C, CHR 0x0D, CHR 0x20, CHR 0xA0])"

definition trim :: "string \<Rightarrow> string" where
  "trim s = rev (dropWhile isSpace (rev (dropWhile isSpace s)))"

text \<open>
  \<open>toLowerCase\<close> on the ASCII letters. The source only ever looks for ASCII words in a
  lowered string and matches ASCII letters under the flag \<open>i\<close>; among code units
  below 256 only \<open>A\<close> to \<open>Z\<close> are mapped to an ASCII letter.
\<close>

definition toLowerChar :: "char \<Rightarrow> char" where
  "toLowerChar c =
     (case map_of (zip ''ABCDEFGHIJKLMNOPQRSTUVWXYZ'' ''abcdefghijklmnopqrstuvwxyz'') c of
        Some d \<Rightarrow> d
      | None \<Rightarrow> c)"

definition toLowerCase :: "string \<Rightarrow> string" where
  "toLowerCase s = map toLowerChar s"

text \<open>The character classes \<open>[a-zA-Z0-9]\<close>, \<open>\d\<close> and \<open>\w\<close>.\<close>

definition isAlnum :: "char \<Rightarrow> bool" where
  "isAlnum c = (c \<in> set ''abcdefghijklmnopqrstuvwxyzABCDEFGHIJKLMNOPQRSTUVWXYZ0123456789'')"

definition isDigit :: "char \<Rightarrow> bool" where
  "isDigit c = (c \<in> set ''0123456789'')"

definition isWord :: "char \<Rightarrow> bool" where
  "isWord c = (isAlnum c \<or> c = CHR ''_'')"

text \<open>\<open>s.includes(t)\<close>: \<open>t\<close> occurs in \<open>s\<close> as a contiguous block.\<close>

fun str_includes :: "string \<Rightarrow> string \<Rightarrow> bool" where
  "str_includes [] t = (t = [])"
| "str_includes (c # s) t = (prefix t (c # s) \<or> str_includes s t)"

section \<open>URL normalisation (\<open>sanitizeUrl\<close> of the native web server, \<open>cleanUrl\<close> of the bot)\<close>

text \<open>\<open>s.replace(/^https?:\/\//i, '')\<close>: one scheme prefix, in any letter case, is removed.\<close>

definition stripScheme :: "string \<Rightarrow> string" where
  "stripScheme s =
     (if toLowerCase (take 7 s) = ''http://'' then drop 7 s
      else if toLowerCase (take 8 s) = ''https://'' then drop 8 s
      else s)"

text \<open>\<open>s.replace(/\/$/, '')\<close>: one slash at the very end is removed.\<close>

definition stripTrailingSlash :: "string \<Rightarrow> string" where
  "stripTrailingSlash s = (if s \<noteq> [] \<and> last s = CHR ''/'' then butlast s else s)"

text \<open>
  \<open>cleanUrl(raw)\<close> of the Discord bot; \<open>None\<close> is JavaScript's \<open>null\<close>.
\<close>

definition cleanUrl :: "string \<Rightarrow> string option" where
  "cleanUrl raw =
     (let u = trim raw in
      if u = [] then None
      else if length u > 2048 then None
      else
        let u' = stripTrailingSlash (stripScheme u) in
        if u' = [] \<or> CHR '' '' \<in> set u' \<or> CHR ''<'' \<in> set u' \<or> CHR ''>'' \<in> set u' then None
        else if \<not> list_ex isAlnum u' then None
        else Some u')"

text \<open>
  \<open>sanitizeUrl(raw)\<close> of the native web server. The argument is a query parameter or an
  element of a parsed JSON array: \<open>None\<close> is a value that is not a string
  (\<open>typeof raw !== 'string'\<close>).
\<close>

definition sanitizeUrl :: "string option \<Rightarrow> string option" where
  "sanitizeUrl raw =
     (case raw of
        None \<Rightarrow> None
      | Some r \<Rightarrow>
          (let cleaned = trim r in
           if cleaned = [] then None
           else if length cleaned > 2048 then None
           else
             let cleaned' = stripTrailingSlash (stripScheme cleaned) in
             if cleaned' = [] \<or> CHR '' '' \<in> set cleaned' \<or> CHR ''<'' \<in> set cleaned'
                \<or> CHR ''>'' \<in> set cleaned' then None
             else if \<not> list_ex isAlnum cleaned' then None
             else Some cleaned'))"

section \<open>The sliding-window rate limiter (\<open>RateLimiter\<close> of both web servers)\<close>

text \<open>
  \<open>_maxHits\<close> is a count or \<open>Infinity\<close> (the native server passes \<open>Infinity\<close> when rate
  limiting is switched off), \<open>_windowMs\<close> and the timestamps are milliseconds, \<open>_hits\<close>
  maps a client address to its array of timestamps. \<open>Date.now()\<close> is the argument \<open>now\<close>.
\<close>

record limiter =
  maxHits :: enat
  windowMs :: int
  hits :: "string \<rightharpoonup> int list"

text \<open>
  The object \<open>check\<close> returns. \<open>retryAfterMs\<close> is \<open>None\<close> where the source computes
  \<open>undefined + windowMs - now\<close>, which is \<open>NaN\<close> (a limit of 0 and no timestamp).
\<close>

record rl_result =
  allowed :: bool
  remaining :: enat
  retryAfterMs :: "int option"

definition fresh :: "limiter \<Rightarrow> string \<Rightarrow> int \<Rightarrow> int list" where
  "fresh l ip now =
     filter (\<lambda>t. t > now - windowMs l) (case hits l ip of None \<Rightarrow> [] | Some ts \<Rightarrow> ts)"

definition check :: "limiter \<Rightarrow> string \<Rightarrow> int \<Rightarrow> limiter \<times> rl_result" where
  "check l ip now =
     (let timestamps = fresh l ip now in
      if enat (length timestamps) \<ge> maxHits l then
        (l\<lparr>hits := (hits l)(ip \<mapsto> timestamps)\<rparr>,
         \<lparr>allowed = False, remaining = 0,
          retryAfterMs = (case timestamps of [] \<Rightarrow> None | oldest # _ \<Rightarrow> Some (oldest + windowMs l - now))\<rparr>)
      else
        (l\<lparr>hits := (hits l)(ip \<mapsto> timestamps @ [now])\<rparr>,
         \<lparr>allowed = True, remaining = maxHits l - enat (length timestamps + 1),
          retryAfterMs = Some 0\<rparr>))"

text \<open>\<open>undo(ip)\<close>: pop the last timestamp of the client's array, when the client has one.\<close>

definition undo :: "limiter \<Rightarrow> string \<Rightarrow> limiter" where
  "undo l ip =
     (case hits l ip of
        None \<Rightarrow> l
      | Some ts \<Rightarrow> l\<lparr>hits := (hits l)(ip \<mapsto> butlast ts)\<rparr>)"

text \<open>
  What \<open>GET /api/status\<close> does to the limiter, in both servers: \<open>check\<close>, then
  pop the client's last timestamp (the legacy server pops \<open>limiter._hits.get(req.ip)\<close> in
  place, the native server calls \<open>undo\<close>). The result of \<open>check\<close> is what the
  response reports.
\<close>

definition statusLimiter :: "limiter \<Rightarrow> string \<Rightarrow> int \<Rightarrow> limiter \<times> rl_result" where
  "statusLimiter l ip now = (let (l', rl) = check l ip now in (undo l' ip, rl))"

section \<open>The checker pool (\<open>CheckerPool\<close> of the legacy web server)\<close>

text \<open>
  One entry of \<open>_instances\<close>. \<open>checker\<close> counts the \<open>LinkChecker\<close> objects built
  for the entry so far: the object is replaced by \<open>new LinkChecker(config)\<close> after a
  failed launch and during recovery, and the number tells the objects apart.
  \<open>inst_error\<close> is \<open>None\<close> for \<open>null\<close>.
\<close>

record inst =
  inst_id :: int
  checker :: nat
  busy :: bool
  ready :: bool
  inst_error :: "string option"
  consecutiveFailures :: nat

text \<open>
  A waiter is the pending promise of a queued \<open>acquire\<close>: \<open>w_token\<close> names the
  promise, \<open>w_notify\<close> says whether the caller passed \<open>onPositionChange\<close>.
\<close>

record waiter =
  w_token :: nat
  w_notify :: bool

record pool =
  instances :: "inst list"
  waiters :: "waiter list"
  recovering :: "int set"

text \<open>What \<open>acquire\<close> resolves to: the slot (the entry's position), its id and its checker.\<close>

record lease =
  l_slot :: nat
  l_id :: int
  l_checker :: nat

datatype outcome = Ok | Failed string

definition newPool :: pool where
  "newPool = \<lparr>instances = [], waiters = [], recovering = {}\<rparr>"

definition addInstance :: "pool \<Rightarrow> int \<Rightarrow> pool" where
  "addInstance p i =
     p\<lparr>instances := instances p @
        [\<lparr>inst_id = i, checker = 0, busy = False, ready = False, inst_error = None,
          consecutiveFailures = 0\<rparr>]\<rparr>"

text \<open>\<open>Array.prototype.find\<close>, by position: the first index whose element satisfies \<open>P\<close>.\<close>

fun findIndex :: "('a \<Rightarrow> bool) \<Rightarrow> 'a list \<Rightarrow> nat option" where
  "findIndex P [] = None"
| "findIndex P (x # xs) = (if P x then Some 0 else map_option Suc (findIndex P xs))"

definition updInst :: "pool \<Rightarrow> nat \<Rightarrow> (inst \<Rightarrow> inst) \<Rightarrow> pool" where
  "updInst p k f = p\<lparr>instances := (instances p)[k := f (instances p ! k)]\<rparr>"

subsection \<open>The getters\<close>

definition pool_size :: "pool \<Rightarrow> nat" where
  "pool_size p = length (instances p)"

definition allBusy :: "pool \<Rightarrow> bool" where
  "allBusy p = list_all busy (filter ready (instances p))"

definition pending :: "pool \<Rightarrow> nat" where
  "pending p = length (waiters p)"

definition anyReady :: "pool \<Rightarrow> bool" where
  "anyReady p = list_ex (\<lambda>i. ready i \<and> \<not> busy i) (instances p)"

definition activeScanCount :: "pool \<Rightarrow> nat" where
  "activeScanCount p = length (filter busy (instances p))"

subsection \<open>\<open>initAll\<close>\<close>

definition launched :: "inst \<Rightarrow> inst" where
  "launched i = i\<lparr>ready := True, inst_error := None, consecutiveFailures := 0\<rparr>"

definition launchFailed :: "inst \<Rightarrow> string \<Rightarrow> inst" where
  "launchFailed i msg = i\<lparr>ready := False, inst_error := Some msg, checker := checker i + 1\<rparr>"

text \<open>Up to two launch attempts for one entry; the arguments are what the attempts do.\<close>

definition initInstance :: "inst \<Rightarrow> outcome \<Rightarrow> outcome \<Rightarrow> inst" where
  "initInstance i o1 o2 =
     (case o1 of
        Ok \<Rightarrow> launched i
      | Failed m1 \<Rightarrow>
          (case o2 of
             Ok \<Rightarrow> launched (launchFailed i m1)
           | Failed m2 \<Rightarrow> launchFailed (launchFailed i m1) m2))"

text \<open>
  \<open>initAll\<close> runs before the server listens, one entry after the other; \<open>outs k\<close> is
  what the two attempts of entry \<open>k\<close> do.
\<close>

definition initAll :: "pool \<Rightarrow> (nat \<Rightarrow> outcome \<times> outcome) \<Rightarrow> pool" where
  "initAll p outs =
     p\<lparr>instances :=
        map (\<lambda>(k, i). initInstance i (fst (outs k)) (snd (outs k))) (List.enumerate 0 (instances p))\<rparr>"

subsection \<open>\<open>acquire\<close> and \<open>_releaseInstance\<close>\<close>

text \<open>
  \<open>_notifyPositions\<close>: the calls \<open>cb(i + 1)\<close> it makes, as pairs of the waiter's promise
  and the position passed.
\<close>

definition notifyPositions :: "pool \<Rightarrow> (nat \<times> nat) list" where
  "notifyPositions p =
     map (\<lambda>(k, w). (w_token w, k + 1)) (filter (\<lambda>(k, w). w_notify w) (List.enumerate 0 (waiters p)))"

definition leaseOf :: "pool \<Rightarrow> nat \<Rightarrow> lease" where
  "leaseOf p k =
     \<lparr>l_slot = k, l_id = inst_id (instances p ! k), l_checker = checker (instances p ! k)\<rparr>"

datatype acquired = Granted lease | Queued "(nat \<times> nat) list"

text \<open>
  \<open>acquire(onPositionChange)\<close>; \<open>w\<close> is the promise a queued call would wait on. The
  result is the lease resolved at once, or the position callbacks made after queueing.
\<close>

definition acquire :: "pool \<Rightarrow> waiter \<Rightarrow> pool \<times> acquired" where
  "acquire p w =
     (case findIndex (\<lambda>i. ready i \<and> \<not> busy i) (instances p) of
        Some k \<Rightarrow>
          (let p' = updInst p k (\<lambda>i. i\<lparr>busy := True\<rparr>) in (p', Granted (leaseOf p' k)))
      | None \<Rightarrow>
          (let p' = p\<lparr>waiters := waiters p @ [w]\<rparr> in (p', Queued (notifyPositions p'))))"

datatype released = HandedTo waiter lease "(nat \<times> nat) list" | Idle

text \<open>\<open>_releaseInstance(inst)\<close>, with \<open>inst\<close> the entry at position \<open>k\<close>.\<close>

definition releaseInstance :: "pool \<Rightarrow> nat \<Rightarrow> pool \<times> released" where
  "releaseInstance p k =
     (if length (waiters p) > 0 then
        (let w = hd (waiters p); p' = p\<lparr>waiters := tl (waiters p)\<rparr> in
         (p', HandedTo w (leaseOf p' k) (notifyPositions p')))
      else (updInst p k (\<lambda>i. i\<lparr>busy := False\<rparr>), Idle))"

subsection \<open>Failure tracking and recovery\<close>

definition recordSuccess :: "pool \<Rightarrow> int \<Rightarrow> pool" where
  "recordSuccess p i =
     (case findIndex (\<lambda>x. inst_id x = i) (instances p) of
        None \<Rightarrow> p
      | Some k \<Rightarrow> updInst p k (\<lambda>x. x\<lparr>consecutiveFailures := 0\<rparr>))"

text \<open>
  \<open>recoverInstance(id)\<close> is asynchronous. \<open>recoverBegin\<close> is its part up to the first
  \<open>await\<close>: the guard, the entry in \<open>_recovering\<close>, \<open>ready = false\<close> and the call of
  \<open>destroy\<close> on the old checker. The flag returned says whether the teardown started.
  \<open>recoverEnd\<close> is the rest: the new checker, the outcome of its \<open>init\<close>, and the
  removal from \<open>_recovering\<close>.
\<close>

definition recoverBegin :: "pool \<Rightarrow> int \<Rightarrow> pool \<times> bool" where
  "recoverBegin p i =
     (case findIndex (\<lambda>x. inst_id x = i) (instances p) of
        None \<Rightarrow> (p, False)
      | Some k \<Rightarrow>
          if i \<in> recovering p then (p, False)
          else ((updInst p k (\<lambda>x. x\<lparr>ready := False\<rparr>))\<lparr>recovering := insert i (recovering p)\<rparr>, True))"

definition recoverEnd :: "pool \<Rightarrow> int \<Rightarrow> outcome \<Rightarrow> pool" where
  "recoverEnd p i out =
     (case findIndex (\<lambda>x. inst_id x = i) (instances p) of
        None \<Rightarrow> p
      | Some k \<Rightarrow>
          (updInst p k (\<lambda>x.
             case out of
               Ok \<Rightarrow> x\<lparr>checker := checker x + 1, ready := True, inst_error := None,
                        consecutiveFailures := 0\<rparr>
             | Failed msg \<Rightarrow> x\<lparr>checker := checker x + 1, inst_error := Some msg\<rparr>))
          \<lparr>recovering := recovering p - {i}\<rparr>)"

text \<open>\<open>recordFailure(id)\<close>; the flag says whether it started a recovery.\<close>

definition recordFailure :: "pool \<Rightarrow> int \<Rightarrow> pool \<times> bool" where
  "recordFailure p i =
     (case findIndex (\<lambda>x. inst_id x = i) (instances p) of
        None \<Rightarrow> (p, False)
      | Some k \<Rightarrow>
          (let p' = updInst p k (\<lambda>x. x\<lparr>consecutiveFailures := consecutiveFailures x + 1\<rparr>) in
           if consecutiveFailures (instances p' ! k) \<ge> 3 \<and> i \<notin> recovering p'
           then recoverBegin p' i
           else (p', False)))"

text \<open>
  One round of the loop of \<open>healthCheck\<close>, for the entry at position \<open>k\<close>;
  \<open>probeFails\<close> says whether the probe of the page throws.
\<close>

definition healthProbe :: "pool \<Rightarrow> nat \<Rightarrow> bool \<Rightarrow> pool \<times> bool" where
  "healthProbe p k probeFails =
     (let x = instances p ! k in
      if \<not> ready x \<or> busy x \<or> inst_id x \<in> recovering p then (p, False)
      else if probeFails then recoverBegin p (inst_id x)
      else (p, False))"

fun healthRounds :: "pool \<Rightarrow> (nat \<Rightarrow> bool) \<Rightarrow> nat list \<Rightarrow> pool" where
  "healthRounds p probeFails [] = p"
| "healthRounds p probeFails (k # ks) = healthRounds (fst (healthProbe p k (probeFails k))) probeFails ks"

definition healthCheck :: "pool \<Rightarrow> (nat \<Rightarrow> bool) \<Rightarrow> pool" where
  "healthCheck p probeFails = healthRounds p probeFails [0 ..< length (instances p)]"

text \<open>\<open>reset\<close>: the waiters resolved with the sentinel, in order, and every busy flag cleared.\<close>

definition reset :: "pool \<Rightarrow> pool \<times> waiter list" where
  "reset p =
     (p\<lparr>waiters := [], instances := map (\<lambda>i. i\<lparr>busy := False\<rparr>) (instances p)\<rparr>, waiters p)"

subsection \<open>Pool histories\<close>

text \<open>
  The pool changes only through its operations, each of which runs to its next
  \<open>await\<close> without interruption. A history is the sequence of these steps.
\<close>

datatype pool_event =
    Acquire waiter
  | Release nat
  | RecordSuccess int
  | RecordFailure int
  | RecoverEnd int outcome
  | HealthProbe nat bool
  | Reset

fun pool_step :: "pool \<Rightarrow> pool_event \<Rightarrow> pool" where
  "pool_step p (Acquire w) = fst (acquire p w)"
| "pool_step p (Release k) = fst (releaseInstance p k)"
| "pool_step p (RecordSuccess i) = recordSuccess p i"
| "pool_step p (RecordFailure i) = fst (recordFailure p i)"
| "pool_step p (RecoverEnd i out) = recoverEnd p i out"
| "pool_step p (HealthProbe k b) = fst (healthProbe p k b)"
| "pool_step p Reset = fst (reset p)"

definition pool_run :: "pool \<Rightarrow> pool_event list \<Rightarrow> pool" where
  "pool_run p es = foldl pool_step p es"

section \<open>The reply observers (\<open>DiscordAutomation\<close>)\<close>

text \<open>
  What the page scripts read of one message element of the channel:
  \<^item> \<open>author_id\<close>: the attribute \<open>data-author-id\<close> of the first descendant that has one
    (\<open>None\<close> when there is none);
  \<^item> \<open>bot_tag_el\<close>: a descendant whose class contains \<open>botTag\<close> exists;
  \<^item> \<open>html\<close>: \<open>innerHTML\<close>;
  \<^item> \<open>content\<close>: \<open>textContent\<close> of the content element (\<open>None\<close> when none of the three
    selectors finds one);
  \<^item> \<open>embed_descriptions\<close>, \<open>embed_wrappers\<close>: \<open>textContent\<close> of the embed description
    elements and of the elements whose class contains \<open>embed\<close>.
\<close>

record message =
  author_id :: "string option"
  bot_tag_el :: bool
  html :: string
  content :: "string option"
  embed_descriptions :: "string list"
  embed_wrappers :: "string list"

record reply =
  r_text :: string
  r_embeds :: "string list"

text \<open>
  \<open>authorId === botId || avatarMatch || (hasBotTag && !authorId)\<close>; \<open>!authorId\<close> holds for
  a missing attribute and for the empty string.
\<close>

definition isFromBot :: "string \<Rightarrow> message \<Rightarrow> bool" where
  "isFromBot botId msg =
     (let hasBotTag = (bot_tag_el msg \<or> str_includes (html msg) ''botTag'');
          avatarMatch = str_includes (html msg) botId
      in author_id msg = Some botId \<or> avatarMatch
         \<or> (hasBotTag \<and> (author_id msg = None \<or> author_id msg = Some [])))"

definition extractReply :: "message \<Rightarrow> reply" where
  "extractReply msg =
     (let text = (case content msg of None \<Rightarrow> [] | Some t \<Rightarrow> trim t);
          embeds = map trim (embed_descriptions msg)
      in \<lparr>r_text = text,
          r_embeds =
            (if length embeds = 0 \<and> length (embed_wrappers msg) > 0
             then filter (\<lambda>t. t \<noteq> []) (map trim (embed_wrappers msg))
             else embeds)\<rparr>)"

text \<open>
  The scan of the one-shot wait: nothing unless there are more messages than at the
  snapshot, then the messages at positions \<open>count\<close> and above, newest first.
\<close>

definition firstNewBotReply :: "nat \<Rightarrow> string \<Rightarrow> message list \<Rightarrow> reply option" where
  "firstNewBotReply count botId msgs =
     (if length msgs \<le> count then None
      else map_option extractReply (find (isFromBot botId) (rev (drop count msgs))))"

text \<open>The re-read of the one-shot wait while the reply settles: all messages, newest first.\<close>

definition lastBotReply :: "string \<Rightarrow> message list \<Rightarrow> reply option" where
  "lastBotReply botId msgs = map_option extractReply (find (isFromBot botId) (rev msgs))"

text \<open>
  \<open>readBot\<close> of the streaming observer: the messages at positions
  \<open>Math.max(0, snapshot.count - 1)\<close> and above, newest first.
\<close>

definition readBot :: "nat \<Rightarrow> string \<Rightarrow> message list \<Rightarrow> reply option" where
  "readBot count botId msgs =
     map_option extractReply
       (find (isFromBot botId) (rev (drop (if count = 0 then 0 else count - 1) msgs)))"

datatype observe_error = SendError | NoReplyError

subsection \<open>\<open>waitForBotReply\<close>\<close>

text \<open>
  Time is the list of polls: the argument lists the channel as each poll that starts
  before the deadline sees it. The inner loop runs while the reply has been seen
  unchanged fewer than 2 times and polls remain. In both observers a poll is one whose
  page script returns; a script that throws, because the page is gone, ends the observer
  with that exception and is not part of the model.
\<close>

fun settle :: "string \<Rightarrow> reply \<Rightarrow> nat \<Rightarrow> message list list \<Rightarrow> reply" where
  "settle botId stableReply unchangedCount [] = stableReply"
| "settle botId stableReply unchangedCount (msgs # polls) =
     (if unchangedCount < 2 then
        (case lastBotReply botId msgs of
           None \<Rightarrow> settle botId stableReply unchangedCount polls
         | Some updated \<Rightarrow>
             if updated = stableReply then settle botId stableReply (unchangedCount + 1) polls
             else settle botId updated 0 polls)
      else stableReply)"

fun waitForBotReply :: "nat \<Rightarrow> string \<Rightarrow> message list list \<Rightarrow> observe_error + reply" where
  "waitForBotReply count botId [] = Inl NoReplyError"
| "waitForBotReply count botId (msgs # polls) =
     (case firstNewBotReply count botId msgs of
        None \<Rightarrow> waitForBotReply count botId polls
      | Some result \<Rightarrow> Inr (settle botId result 0 polls))"

subsection \<open>\<open>sendAndStreamReply\<close>\<close>

text \<open>
  What \<open>onUpdate\<close> does when called: it returns a boolean or throws. The callback has
  state of its own (the closure's variables), of type \<open>'c\<close>.
\<close>

datatype cb_outcome = Returned bool | Threw

text \<open>
  One round of the polling loop whose deadline check passed: the flag
  \<open>onUpdate._aborted\<close> is found set, or the channel is read.
\<close>

datatype poll = Aborted | Channel "message list"

record 'c stream_state =
  lastText :: string
  unchangedCount :: nat
  foundBot :: bool
  contentComplete :: bool
  cbState :: 'c

definition joinWith :: "string \<Rightarrow> string list \<Rightarrow> string" where
  "joinWith sep xs = (case xs of [] \<Rightarrow> [] | x # rest \<Rightarrow> x @ concat (map (\<lambda>y. sep @ y) rest))"

definition currentFull :: "reply \<Rightarrow> string" where
  "currentFull current = r_text current @ [CHR 0x0A] @ joinWith [CHR 0x0A] (r_embeds current)"

definition streamInit :: "'c \<Rightarrow> 'c stream_state" where
  "streamInit c =
     \<lparr>lastText = [], unchangedCount = 0, foundBot = False, contentComplete = True, cbState = c\<rparr>"

text \<open>The body of the loop from \<open>foundBot = true\<close> to the stability test.\<close>

definition observe :: "('c \<Rightarrow> reply \<Rightarrow> 'c \<times> cb_outcome) \<Rightarrow> 'c stream_state \<Rightarrow> reply \<Rightarrow> 'c stream_state" where
  "observe onUpdate s current =
     (if currentFull current \<noteq> lastText s then
        (let (c', out) = onUpdate (cbState s) current in
         s\<lparr>foundBot := True, lastText := currentFull current, unchangedCount := 0,
           cbState := c',
           contentComplete := (case out of Returned result \<Rightarrow> result | Threw \<Rightarrow> True)\<rparr>)
      else s\<lparr>foundBot := True, unchangedCount := unchangedCount s + 1\<rparr>)"

datatype 'c loop_end =
    Stable reply 'c
  | Broke "'c stream_state"
  | TimedOut "'c stream_state"

fun streamLoop ::
  "('c \<Rightarrow> reply \<Rightarrow> 'c \<times> cb_outcome) \<Rightarrow> nat \<Rightarrow> string \<Rightarrow> 'c stream_state \<Rightarrow> poll list \<Rightarrow> 'c loop_end"
where
  "streamLoop onUpdate count botId s [] = TimedOut s"
| "streamLoop onUpdate count botId s (Aborted # polls) = Broke s"
| "streamLoop onUpdate count botId s (Channel msgs # polls) =
     (case readBot count botId msgs of
        None \<Rightarrow> streamLoop onUpdate count botId s polls
      | Some current \<Rightarrow>
          (let s' = observe onUpdate s current in
           if contentComplete s' \<and> unchangedCount s' \<ge> 5 then Stable current (cbState s')
           else streamLoop onUpdate count botId s' polls))"

text \<open>
  \<open>sendAndStreamReply(text, onUpdate, timeout)\<close>. \<open>before\<close> is the channel at the
  snapshot, \<open>sent\<close> says whether \<open>sendMessage\<close> returns, \<open>polls\<close> are the rounds before
  the deadline and \<open>final\<close> is the channel at the read after the loop. The result comes
  with the callback's state.
\<close>

definition sendAndStreamReply ::
  "('c \<Rightarrow> reply \<Rightarrow> 'c \<times> cb_outcome) \<Rightarrow> 'c \<Rightarrow> string \<Rightarrow> message list \<Rightarrow> bool \<Rightarrow> poll list
     \<Rightarrow> message list \<Rightarrow> (observe_error + reply) \<times> 'c"
where
  "sendAndStreamReply onUpdate c botId before sent polls final =
     (if \<not> sent then (Inl SendError, c)
      else
        (let count = length before;
             finish = (\<lambda>s.
               if \<not> foundBot s then (Inl NoReplyError, cbState s)
               else
                 (case readBot count botId final of
                    Some r \<Rightarrow> (Inr r, cbState s)
                  | None \<Rightarrow> (Inr \<lparr>r_text = lastText s, r_embeds = []\<rparr>, cbState s)))
         in case streamLoop onUpdate count botId (streamInit c) polls of
              Stable current c' \<Rightarrow> (Inr current, c')
            | Broke s \<Rightarrow> finish s
            | TimedOut s \<Rightarrow> finish s))"

section \<open>The response parser (\<open>parseBotResponse\<close>)\<close>

subsection \<open>The regular expressions of the parser\<close>

text \<open>
  Every regular expression of the parser that captures or splits is a sequence of items,
  each one character class under a quantifier: one character, a greedy \<open>{n,}\<close> or a
  lazy \<open>{n,}?\<close>, captured or not. \<open>matchItems\<close> is the backtracking matcher of
  ECMAScript on such sequences, from a given position: a greedy item tries the longest
  run first and gives characters back, a lazy one tries the shortest first and takes
  more. It returns the captures in order and the input left; with \<open>toEnd\<close> the pattern
  ends in \<open>$\<close> and the match must reach the end of the input.
\<close>

datatype atom = Cls "char \<Rightarrow> bool" | Greedy nat "char \<Rightarrow> bool" | Lazy nat "char \<Rightarrow> bool"

datatype item = Plain atom | Cap atom

fun lazyRun ::
  "(char \<Rightarrow> bool) \<Rightarrow> nat \<Rightarrow> (string \<Rightarrow> 'a option) \<Rightarrow> string \<Rightarrow> string \<Rightarrow> (string \<times> 'a) option"
where
  "lazyRun P n k acc [] = (if n = 0 then map_option (Pair (rev acc)) (k []) else None)"
| "lazyRun P n k acc (c # s) =
     (case (if n = 0 then k (c # s) else None) of
        Some r \<Rightarrow> Some (rev acc, r)
      | None \<Rightarrow> if P c then lazyRun P (n - 1) k (c # acc) s else None)"

fun greedyRun ::
  "(char \<Rightarrow> bool) \<Rightarrow> nat \<Rightarrow> (string \<Rightarrow> 'a option) \<Rightarrow> string \<Rightarrow> string \<Rightarrow> (string \<times> 'a) option"
where
  "greedyRun P n k acc [] = (if n = 0 then map_option (Pair (rev acc)) (k []) else None)"
| "greedyRun P n k acc (c # s) =
     (case (if P c then greedyRun P (n - 1) k (c # acc) s else None) of
        Some r \<Rightarrow> Some r
      | None \<Rightarrow> if n = 0 then map_option (Pair (rev acc)) (k (c # s)) else None)"

definition atomRun ::
  "atom \<Rightarrow> (string \<Rightarrow> 'a option) \<Rightarrow> string \<Rightarrow> (string \<times> 'a) option"
where
  "atomRun a k s =
     (case a of
        Cls P \<Rightarrow>
          (case s of
             [] \<Rightarrow> None
           | c # s' \<Rightarrow> if P c then map_option (Pair [c]) (k s') else None)
      | Greedy n P \<Rightarrow> greedyRun P n k [] s
      | Lazy n P \<Rightarrow> lazyRun P n k [] s)"

primrec matchItems :: "bool \<Rightarrow> item list \<Rightarrow> string \<Rightarrow> (string list \<times> string) option" where
  "matchItems toEnd [] s = (if toEnd \<and> s \<noteq> [] then None else Some ([], s))"
| "matchItems toEnd (it # its) s =
     (case it of
        Plain a \<Rightarrow> map_option snd (atomRun a (matchItems toEnd its) s)
      | Cap a \<Rightarrow>
          map_option (\<lambda>(text, caps, rest). (text # caps, rest)) (atomRun a (matchItems toEnd its) s))"

text \<open>
  A search without \<open>^\<close>: the first position from the left at which the pattern
  matches; the result is the text before the match, the captures and the text after.
\<close>

fun searchItems ::
  "bool \<Rightarrow> item list \<Rightarrow> string \<Rightarrow> string \<Rightarrow> (string \<times> string list \<times> string) option"
where
  "searchItems toEnd pat acc [] =
     map_option (\<lambda>(caps, rest). (rev acc, caps, rest)) (matchItems toEnd pat [])"
| "searchItems toEnd pat acc (c # s) =
     (case matchItems toEnd pat (c # s) of
        Some (caps, rest) \<Rightarrow> Some (rev acc, caps, rest)
      | None \<Rightarrow> searchItems toEnd pat (c # acc) s)"

text \<open>
  \<open>s.split(pattern)\<close>: the pieces between the matches, found from left to right. A match
  that consumes nothing cuts the piece collected so far (when there is one) and moves on
  by one character, as the specification of \<open>split\<close> has it.
\<close>

fun splitItems :: "item list \<Rightarrow> string \<Rightarrow> string \<Rightarrow> string list" where
  "splitItems pat acc [] = [rev acc]"
| "splitItems pat acc (c # s) =
     (case matchItems False pat (c # s) of
        None \<Rightarrow> splitItems pat (c # acc) s
      | Some (caps, rest) \<Rightarrow>
          if length rest < length (c # s) then rev acc # splitItems pat [] rest
          else if acc = [] then splitItems pat [c] s
          else rev acc # splitItems pat [c] s)"

text \<open>\<open>s.split('\n')\<close>.\<close>

fun splitOn :: "char \<Rightarrow> string \<Rightarrow> string \<Rightarrow> string list" where
  "splitOn d acc [] = [rev acc]"
| "splitOn d acc (c # s) = (if c = d then rev acc # splitOn d [] s else splitOn d (c # acc) s)"

definition lit :: "char \<Rightarrow> item" where
  "lit c = Plain (Cls (\<lambda>x. x = c))"

text \<open>The dot matches every character but a line terminator.\<close>

definition dotChar :: "char \<Rightarrow> bool" where
  "dotChar c = (c \<noteq> CHR 0x0A \<and> c \<noteq> CHR 0x0D)"

definition nonWord :: "char \<Rightarrow> bool" where
  "nonWord c = (\<not> isWord c)"

text \<open>\<open>\s*\(took\s+(\d+)ms\)\<close>, the end of every result pattern.\<close>

definition tookItems :: "item list" where
  "tookItems =
     [Plain (Greedy 0 isSpace)] @ map lit ''(took'' @
     [Plain (Greedy 1 isSpace), Cap (Greedy 1 isDigit)] @ map lit ''ms)''"

text \<open>\<open>/^(.+?)\s+-\s+(.+?)\s*\(took\s+(\d+)ms\)$/\<close>\<close>

definition resultItems :: "item list" where
  "resultItems =
     [Cap (Lazy 1 dotChar), Plain (Greedy 1 isSpace), lit CHR ''-'', Plain (Greedy 1 isSpace),
      Cap (Lazy 1 dotChar)] @ tookItems"

text \<open>
  \<open>compactLinePattern\<close>, \<open>/^[^\w]*(.+?)\s*[:\<emdash>]\s+(.+?)\s+-\s+(.+?)\s*\(took\s+(\d+)ms\)$/\<close>.
  The class is a colon or an em dash (U+2014); the em dash is no code unit below 256.
\<close>

definition compactLineItems :: "item list" where
  "compactLineItems =
     [Plain (Greedy 0 nonWord), Cap (Lazy 1 dotChar), Plain (Greedy 0 isSpace), lit CHR '':'',
      Plain (Greedy 1 isSpace), Cap (Lazy 1 dotChar), Plain (Greedy 1 isSpace), lit CHR ''-'',
      Plain (Greedy 1 isSpace), Cap (Lazy 1 dotChar)] @ tookItems"

text \<open>\<open>/^[^\w]*(.+?)\s+-\s+(.+?)\s*\(took\s+(\d+)ms\)$/\<close>, the broad pattern of the sweep.\<close>

definition broadItems :: "item list" where
  "broadItems =
     [Plain (Greedy 0 nonWord), Cap (Lazy 1 dotChar), Plain (Greedy 1 isSpace), lit CHR ''-'',
      Plain (Greedy 1 isSpace), Cap (Lazy 1 dotChar)] @ tookItems"

text \<open>The separators \<open>/\s*[-:\<emdash>]\s/\<close> and \<open>/\s+-\s+/\<close> of the sweep.\<close>

definition nameSepItems :: "item list" where
  "nameSepItems =
     [Plain (Greedy 0 isSpace), Plain (Cls (\<lambda>c. c = CHR ''-'' \<or> c = CHR '':'')), Plain (Cls isSpace)]"

definition dashSepItems :: "item list" where
  "dashSepItems = [Plain (Greedy 1 isSpace), lit CHR ''-'', Plain (Greedy 1 isSpace)]"

text \<open>\<open>/\(took\s+(\d+)ms\)/\<close>\<close>

definition msItems :: "item list" where
  "msItems = map lit ''(took'' @ [Plain (Greedy 1 isSpace), Cap (Greedy 1 isDigit)] @ map lit ''ms)''"

text \<open>
  The tests without captures (\<open>resultLinePattern\<close> of the source is never used). Under the flag \<open>i\<close> an ASCII letter of a pattern matches
  its two cases. The alternatives of \<open>loadingPattern\<close> and \<open>errorPattern\<close> that are
  emoji (U+23F3, U+26A0 U+FE0F) need code units from 256 up and match no text of the model.
\<close>

definition loadingPattern :: "string \<Rightarrow> bool" where
  "loadingPattern s = str_includes (toLowerCase s) ''loading''"

definition errorPattern :: "string \<Rightarrow> bool" where
  "errorPattern s = (str_includes (toLowerCase s) ''error'' \<or> str_includes (toLowerCase s) ''report to'')"

definition notePattern :: "string \<Rightarrow> bool" where
  "notePattern s = str_includes (toLowerCase s) ''all checkers use the default settings''"

definition headerPattern :: "string \<Rightarrow> bool" where
  "headerPattern s = prefix ''results for '' (toLowerCase s)"

text \<open>\<open>s.replace(/^[^\w]*/, '')\<close> and \<open>s.replace(/\s*\(took\s+\d+ms\)$/, '')\<close>.\<close>

definition dropNonWord :: "string \<Rightarrow> string" where
  "dropNonWord s = dropWhile nonWord s"

definition dropTook :: "string \<Rightarrow> string" where
  "dropTook s = (case searchItems True tookItems [] s of None \<Rightarrow> s | Some (before, caps, rest) \<Rightarrow> before)"

text \<open>
  \<open>parseInt(digits, 10)\<close> on a run of decimal digits: the number they denote (the source
  holds it in a double, exactly below \<open>2^53\<close>).
\<close>

definition digitVal :: "char \<Rightarrow> nat" where
  "digitVal c = (case map_of (zip ''0123456789'' [0, 1, 2, 3, 4, 5, 6, 7, 8, 9]) c of Some d \<Rightarrow> d | None \<Rightarrow> 0)"

definition parseInt :: "string \<Rightarrow> nat" where
  "parseInt ds = foldl (\<lambda>n c. 10 * n + digitVal c) 0 ds"

subsection \<open>The parser\<close>

datatype status = Blocked | Unblocked | Loading | Error | Unknown

datatype icon = NoIcon | Hourglass | WarningSign

record platform =
  p_name :: string
  p_category :: string
  p_status :: status
  p_detail :: string
  p_ms :: "nat option"
  p_icon :: icon

text \<open>The arrays and the set the parser fills: \<open>platforms\<close>, \<open>seen\<close> and \<open>note\<close>.\<close>

record scan =
  platforms :: "platform list"
  seen :: "string list"
  p_note :: "string option"

record parsed =
  res_platforms :: "platform list"
  res_note :: "string option"
  res_raw :: string

definition classify :: "string \<Rightarrow> status" where
  "classify detail =
     (if str_includes (toLowerCase detail) ''unblocked'' then Unblocked
      else if str_includes (toLowerCase detail) ''blocked'' then Blocked
      else Unknown)"

definition push :: "scan \<Rightarrow> platform \<Rightarrow> scan" where
  "push st p = st\<lparr>platforms := platforms st @ [p]\<rparr>"

definition addSeen :: "scan \<Rightarrow> string \<Rightarrow> scan" where
  "addSeen st name = st\<lparr>seen := name # seen st\<rparr>"

definition tryCompactLine :: "string \<Rightarrow> scan \<Rightarrow> scan" where
  "tryCompactLine line st =
     (case matchItems True compactLineItems line of
        Some ([m1, m2, m3, m4], rest) \<Rightarrow>
          (let name = trim (dropNonWord m1) in
           if name \<in> set (seen st) then st
           else
             (let category = trim m2; detail = trim m3; ms = parseInt m4 in
              push (addSeen st name)
                \<lparr>p_name = name, p_category = category, p_status = classify detail,
                 p_detail = detail, p_ms = Some ms, p_icon = NoIcon\<rparr>))
      | _ \<Rightarrow> st)"

text \<open>
  The main loop. The list holds the lines from index \<open>i\<close> on; \<open>i++\<close> inside the body
  skips the next line.
\<close>

fun scanLines :: "string list \<Rightarrow> scan \<Rightarrow> scan" where
  "scanLines [] st = st"
| "scanLines [line] st =
     (if notePattern line then st\<lparr>p_note := Some (trim (dropNonWord line))\<rparr>
      else if headerPattern line then st
      else tryCompactLine line st)"
| "scanLines (line # nextLine # rest) st =
     (if notePattern line then
        scanLines (nextLine # rest) (st\<lparr>p_note := Some (trim (dropNonWord line))\<rparr>)
      else if headerPattern line then scanLines (nextLine # rest) st
      else
        (let isNameLine = (\<not> str_includes line '' - '' \<and> \<not> str_includes line ''(took''
                           \<and> \<not> notePattern line \<and> \<not> headerPattern line);
             isResultLine = (str_includes nextLine '' - '' \<and> str_includes nextLine ''(took'');
             isLoadingNext = (loadingPattern nextLine \<and> \<not> str_includes nextLine ''(took'');
             isErrorNext = (errorPattern nextLine \<and> \<not> str_includes nextLine ''(took'')
         in
           if isNameLine \<and> (isResultLine \<or> isLoadingNext \<or> isErrorNext) then
             (let name = trim line in
              if name \<in> set (seen st) then scanLines rest st
              else if isLoadingNext then
                scanLines rest
                  (push (addSeen st name)
                     \<lparr>p_name = name, p_category = ''Loading...'', p_status = Loading,
                      p_detail = ''Loading...'', p_ms = None, p_icon = Hourglass\<rparr>)
              else if isErrorNext then
                scanLines rest
                  (push (addSeen st name)
                     \<lparr>p_name = name, p_category = trim nextLine, p_status = Error,
                      p_detail = trim nextLine, p_ms = None, p_icon = WarningSign\<rparr>)
              else
                scanLines rest
                  (case matchItems True resultItems nextLine of
                     Some ([m1, m2, m3], r) \<Rightarrow>
                       (let category = trim m1; detail = trim m2; ms = parseInt m3 in
                        push (addSeen st name)
                          \<lparr>p_name = name, p_category = category, p_status = classify detail,
                           p_detail = detail, p_ms = Some ms, p_icon = NoIcon\<rparr>)
                   | _ \<Rightarrow> addSeen st name))
           else scanLines (nextLine # rest) (tryCompactLine line st)))"

text \<open>One line of the fallback sweep.\<close>

definition sweepLine :: "scan \<Rightarrow> string \<Rightarrow> scan" where
  "sweepLine st line =
     (if \<not> str_includes line ''(took'' then st
      else if notePattern line \<or> headerPattern line then st
      else
        (let st' = tryCompactLine line st in
         if trim (hd (splitItems nameSepItems [] line)) \<notin> set (seen st') then
           (case matchItems True broadItems line of
              None \<Rightarrow> st'
            | Some broadMatch \<Rightarrow>
                (let beforeTook = dropTook line;
                     dashParts = splitItems dashSepItems [] beforeTook
                 in
                   if length dashParts \<ge> 3 then
                     (let name = trim (dropNonWord (dashParts ! 0)) in
                      if name \<in> set (seen st') then st'
                      else
                        (let category = trim (dashParts ! 1);
                             detail = trim (joinWith '' - '' (drop 2 dashParts));
                             ms = (case searchItems False msItems [] line of
                                     Some (before, [m], rest) \<Rightarrow> Some (parseInt m)
                                   | _ \<Rightarrow> None)
                         in push (addSeen st' name)
                              \<lparr>p_name = name, p_category = category, p_status = classify detail,
                               p_detail = detail, p_ms = ms, p_icon = NoIcon\<rparr>))
                   else st'))
         else st'))"

text \<open>\<open>parseBotResponse(reply)\<close>\<close>

definition parseBotResponse :: "reply \<Rightarrow> parsed" where
  "parseBotResponse r =
     (let raw = joinWith [CHR 0x0A] (r_text r # r_embeds r);
          allLines = filter (\<lambda>l. l \<noteq> []) (map trim (splitOn (CHR 0x0A) [] raw));
          st = scanLines allLines \<lparr>platforms = [], seen = [], p_note = None\<rparr>;
          st' = (if length (filter (\<lambda>p. p_status p \<noteq> Loading) (platforms st)) < 5
                 then foldl sweepLine st allLines
                 else st)
      in \<lparr>res_platforms = platforms st', res_note = p_note st', res_raw = raw\<rparr>)"

section \<open>The request handlers\<close>

subsection \<open>\<open>GET /api/status\<close> of the legacy server\<close>

text \<open>The closures \<open>anyReady\<close> and \<open>firstError\<close> of \<open>startWebServer\<close>.\<close>

definition serverAnyReady :: "pool \<Rightarrow> bool" where
  "serverAnyReady p = list_ex ready (instances p)"

definition firstError :: "pool \<Rightarrow> string option" where
  "firstError p =
     (case find (\<lambda>i. case inst_error i of None \<Rightarrow> False | Some e \<Rightarrow> e \<noteq> []) (instances p) of
        None \<Rightarrow> None
      | Some bad \<Rightarrow> inst_error bad)"

record status_response =
  st_ready :: bool
  st_error :: "string option"
  st_queue :: nat
  st_busy :: bool
  st_poolSize :: nat
  st_activeScans :: nat
  st_remaining :: enat
  st_retryAfter :: "int option"

text \<open>\<open>Math.ceil(ms / 1000)\<close> on whole milliseconds.\<close>

definition ceilSeconds :: "int \<Rightarrow> int" where
  "ceilSeconds ms = - ((- ms) div 1000)"

definition statusLegacy :: "limiter \<Rightarrow> pool \<Rightarrow> string \<Rightarrow> int \<Rightarrow> limiter \<times> status_response" where
  "statusLegacy l p ip now =
     (let (l', rl) = statusLimiter l ip now in
      (l',
       \<lparr>st_ready = serverAnyReady p, st_error = firstError p, st_queue = pending p,
        st_busy = allBusy p, st_poolSize = pool_size p, st_activeScans = activeScanCount p,
        st_remaining = remaining rl,
        st_retryAfter = (if allowed rl then Some 0 else map_option ceilSeconds (retryAfterMs rl))\<rparr>))"

subsection \<open>\<open>GET /api/check-stream\<close>: what happens before the stream opens\<close>

text \<open>
  The query parameter \<open>url\<close> is \<open>None\<close> when the request has none. A request is
  answered with a status code, or the stream opens for a command (legacy server) or a
  URL (native server).
\<close>

datatype admission = Rejected nat | Streams string

definition checkStreamAdmit ::
  "limiter \<Rightarrow> pool \<Rightarrow> string \<Rightarrow> int \<Rightarrow> string option \<Rightarrow> limiter \<times> admission"
where
  "checkStreamAdmit l p ip now url =
     (case url of
        None \<Rightarrow> (l, Rejected 400)
      | Some u \<Rightarrow>
          if u = [] then (l, Rejected 400)
          else if \<not> serverAnyReady p then (l, Rejected 503)
          else
            (let (l', rl) = check l ip now in
             if \<not> allowed rl then (l', Rejected 429)
             else (l', Streams (''/check all '' @ u))))"

text \<open>
  The legacy handler up to the first \<open>await\<close> of a request that opens the stream: the
  tests above, then \<open>pool.acquire\<close> of the first attempt. The command is typed into the session
  once the slot is held.
\<close>

definition checkStreamStart ::
  "limiter \<Rightarrow> pool \<Rightarrow> string \<Rightarrow> int \<Rightarrow> string option \<Rightarrow> waiter
     \<Rightarrow> limiter \<times> pool \<times> (nat + string \<times> acquired)"
where
  "checkStreamStart l p ip now url w =
     (case checkStreamAdmit l p ip now url of
        (l', Rejected code) \<Rightarrow> (l', p, Inl code)
      | (l', Streams command) \<Rightarrow>
          (let (p', a) = acquire p w in (l', p', Inr (command, a))))"

text \<open>\<open>GET /api/check-stream\<close> of the native server, which has no pool.\<close>

definition nativeCheckStreamAdmit ::
  "limiter \<Rightarrow> string \<Rightarrow> int \<Rightarrow> string option \<Rightarrow> limiter \<times> admission"
where
  "nativeCheckStreamAdmit l ip now url =
     (case sanitizeUrl url of
        None \<Rightarrow> (l, Rejected 400)
      | Some u \<Rightarrow>
          (let (l', rl) = check l ip now in
           if \<not> allowed rl then (l', Rejected 429)
           else (l', Streams u)))"

subsection \<open>The callback of the legacy \<open>check-stream\<close> handler\<close>

datatype sse_event =
    EvQueued nat
  | EvPlatform platform
  | EvNote string
  | EvDone string nat
  | EvError string

text \<open>
  The variables the callback closes over: \<open>sentPlatforms\<close> (of the request), \<open>sawNote\<close>
  (of the attempt), and the events written to the response so far.
\<close>

record cs_state =
  sentPlatforms :: "string list"
  sawNote :: bool
  events :: "sse_event list"

definition emitPlatform :: "cs_state \<Rightarrow> platform \<Rightarrow> cs_state" where
  "emitPlatform c p =
     (if p_status p = Loading then c
      else if p_name p \<in> set (sentPlatforms c) then c
      else c\<lparr>sentPlatforms := p_name p # sentPlatforms c, events := events c @ [EvPlatform p]\<rparr>)"

text \<open>The test \<open>looksComplete\<close> of the callback, on the parsed reply.\<close>

definition looksComplete :: "bool \<Rightarrow> parsed \<Rightarrow> bool" where
  "looksComplete noteSeen pr =
     (let hasLoading = list_ex (\<lambda>p. p_status p = Loading) (res_platforms pr);
          finishedCount = length (filter (\<lambda>p. p_status p \<noteq> Loading) (res_platforms pr))
      in \<not> hasLoading \<and> noteSeen \<and> finishedCount \<ge> 10)"

definition onUpdate :: "cs_state \<Rightarrow> reply \<Rightarrow> cs_state \<times> cb_outcome" where
  "onUpdate c partial =
     (let pr = parseBotResponse partial;
          c1 = foldl emitPlatform c (res_platforms pr);
          c2 = (case res_note pr of
                  None \<Rightarrow> c1
                | Some n \<Rightarrow>
                    if n = [] then c1
                    else c1\<lparr>events := events c1 @ [EvNote n], sawNote := True\<rparr>)
      in (c2, Returned (looksComplete (sawNote c2) pr)))"

section \<open>Notions used to state the properties of the streaming observer\<close>

text \<open>
  \<open>stableRun count botId full k polls\<close> says that the tracked reply is seen unchanged
  \<open>k\<close> times in a row from the start of \<open>polls\<close>: no round finds the abort flag, every
  round that finds a reply of the bot finds one whose text with embeds is \<open>full\<close>, and
  there are \<open>k\<close> such rounds (\<open>k \<ge> 1\<close>). The result is the reply the \<open>k\<close>-th of them reads.
\<close>

fun stableRun :: "nat \<Rightarrow> string \<Rightarrow> string \<Rightarrow> nat \<Rightarrow> poll list \<Rightarrow> reply option" where
  "stableRun count botId full k [] = None"
| "stableRun count botId full k (Aborted # polls) = None"
| "stableRun count botId full k (Channel msgs # polls) =
     (case readBot count botId msgs of
        None \<Rightarrow> stableRun count botId full k polls
      | Some v \<Rightarrow>
          if currentFull v \<noteq> full then None
          else if k \<le> 1 then Some v
          else stableRun count botId full (k - 1) polls)"

section \<open>The invariant of the parser's deduplication\<close>

text \<open>The names of the platforms collected so far are distinct and all in \<open>seen\<close>.\<close>

definition namesOk :: "scan \<Rightarrow> bool" where
  "namesOk st =
     (distinct (map p_name (platforms st)) \<and> set (map p_name (platforms st)) \<subseteq> set (seen st))"

section \<open>Sample replies\<close>

text \<open>
  Replies in the two-line form the bot uses, for the platforms of \<open>PLATFORM_ORDER\<close> of
  the bot: the first \<open>k\<close> platforms, each with a result line, and the disclaimer when
  \<open>withNote\<close> is set. \<open>sampleMessage\<close> is the message element of bot \<open>42\<close> that shows
  such a reply.
\<close>

definition platformOrder :: "string list" where
  "platformOrder =
     [''ContentKeeper'', ''Lightspeed'', ''Securly'', ''AristotleK12'', ''Senso Cloud'',
      ''Linewize'', ''Cisco Umbrella'', ''iBoss'', ''Palo Alto'', ''LanSchool'',
      ''Blocksi Web'', ''FortiGuard'', ''GoGuardian'', ''Blocksi AI'', ''Deledao'']"

definition sampleText :: "nat \<Rightarrow> bool \<Rightarrow> string" where
  "sampleText k withNote =
     joinWith [CHR 0x0A]
       (concat (map (\<lambda>name. [name, ''Education - Likely Unblocked (took 12ms)'']) (take k platformOrder))
        @ (if withNote then [''All checkers use the default settings.''] else []))"

definition sampleMessage :: "nat \<Rightarrow> bool \<Rightarrow> message" where
  "sampleMessage k withNote =
     \<lparr>author_id = Some ''42'', bot_tag_el = True, html = ''<div>reply</div>'',
      content = Some (sampleText k withNote), embed_descriptions = [], embed_wrappers = []\<rparr>"

section \<open>Properties of URL normalisation\<close>

lemma trim_decompose: "\<exists>a b. r = a @ trim r @ b"
proof -
  have 1: "r = takeWhile isSpace r @ dropWhile isSpace r"
    by simp
  define d where "d = dropWhile isSpace r"
  have "rev d = takeWhile isSpace (rev d) @ dropWhile isSpace (rev d)"
    by simp
  then have "d = rev (dropWhile isSpace (rev d)) @ rev (takeWhile isSpace (rev d))"
    by (metis rev_append rev_rev_ident)
  then have "d = trim r @ rev (takeWhile isSpace (rev d))"
    by (simp add: trim_def d_def)
  with 1 show ?thesis
    unfolding d_def by metis
qed

lemma stripScheme_decompose:
  "\<exists>p. s = p @ stripScheme s \<and> (p = [] \<or> toLowerCase p = ''http://'' \<or> toLowerCase p = ''https://'')"
proof (cases "toLowerCase (take 7 s) = ''http://''")
  case True
  then have "s = take 7 s @ stripScheme s \<and> toLowerCase (take 7 s) = ''http://''"
    by (simp add: stripScheme_def)
  then show ?thesis by blast
next
  case False
  note not7 = this
  show ?thesis
  proof (cases "toLowerCase (take 8 s) = ''https://''")
    case True
    with not7 have "s = take 8 s @ stripScheme s \<and> toLowerCase (take 8 s) = ''https://''"
      by (simp add: stripScheme_def)
    then show ?thesis by blast
  next
    case False
    with not7 have "s = [] @ stripScheme s"
      by (simp add: stripScheme_def)
    then show ?thesis by blast
  qed
qed

lemma stripTrailingSlash_decompose:
  "\<exists>q. s = stripTrailingSlash s @ q \<and> (q = [] \<or> q = ''/'')"
proof (cases "s \<noteq> [] \<and> last s = CHR ''/''")
  case True
  then have "s = butlast s @ ''/''"
    by (metis append_butlast_last_id)
  with True show ?thesis
    by (auto simp: stripTrailingSlash_def)
next
  case False
  then show ?thesis
    by (auto simp: stripTrailingSlash_def)
qed

lemma sanitizeUrl_Some:
  assumes "sanitizeUrl (Some r) = Some u"
  shows "u = stripTrailingSlash (stripScheme (trim r))"
  using assms by (simp add: sanitizeUrl_def Let_def split: if_splits)

lemma cleanUrl_sanitizeUrl: "cleanUrl r = sanitizeUrl (Some r)"
  by (simp add: cleanUrl_def sanitizeUrl_def)

lemma sanitize_example1:
  "sanitizeUrl (Some ''http://http://example.com//'') = Some ''http://example.com/''"
  by (simp add: sanitizeUrl_def trim_def isSpace_def stripScheme_def stripTrailingSlash_def
      toLowerCase_def toLowerChar_def isAlnum_def Let_def)

lemma sanitize_example2:
  "sanitizeUrl (Some ''http://example.com/'') = Some ''example.com''"
  by (simp add: sanitizeUrl_def trim_def isSpace_def stripScheme_def stripTrailingSlash_def
      toLowerCase_def toLowerChar_def isAlnum_def Let_def)

text \<open>
  Claim C10. One call of \<open>sanitizeUrl\<close> (and of \<open>cleanUrl\<close>, which agrees with it on
  every string) removes at most one scheme prefix from the front and at most one slash
  from the end of the trimmed input: an accepted result \<open>u\<close> sits in the trimmed input
  between a prefix that is empty or one scheme, and a suffix that is empty or one slash.
  Normalisation is therefore not idempotent: \<open>http://http://example.com//\<close> is accepted
  as \<open>http://example.com/\<close>, which still begins with \<open>http://\<close>, and normalising
  that result again gives the different string \<open>example.com\<close>.
\<close>

theorem sanitizeUrl_strips_once_not_idempotent:
  "(\<forall>r u. sanitizeUrl (Some r) = Some u \<longrightarrow>
      (\<exists>p q. trim r = p @ u @ q
         \<and> (p = [] \<or> toLowerCase p = ''http://'' \<or> toLowerCase p = ''https://'')
         \<and> (q = [] \<or> q = ''/'')))
   \<and> (\<forall>r. cleanUrl r = sanitizeUrl (Some r))
   \<and> sanitizeUrl (Some ''http://http://example.com//'') = Some ''http://example.com/''
   \<and> prefix ''http://'' ''http://example.com/''
   \<and> sanitizeUrl (sanitizeUrl (Some ''http://http://example.com//'')) = Some ''example.com''
   \<and> sanitizeUrl (sanitizeUrl (Some ''http://http://example.com//''))
       \<noteq> sanitizeUrl (Some ''http://http://example.com//'')"
proof -
  have general: "\<exists>p q. trim r = p @ u @ q
         \<and> (p = [] \<or> toLowerCase p = ''http://'' \<or> toLowerCase p = ''https://'')
         \<and> (q = [] \<or> q = ''/'')" if "sanitizeUrl (Some r) = Some u" for r u
  proof -
    have u: "u = stripTrailingSlash (stripScheme (trim r))"
      using that by (rule sanitizeUrl_Some)
    obtain p where p: "trim r = p @ stripScheme (trim r)"
      "p = [] \<or> toLowerCase p = ''http://'' \<or> toLowerCase p = ''https://''"
      using stripScheme_decompose by blast
    obtain q where q: "stripScheme (trim r) = u @ q" "q = [] \<or> q = ''/''"
      using stripTrailingSlash_decompose u by blast
    from p q have "trim r = p @ u @ q" by simp
    with p(2) q(2) show ?thesis by blast
  qed
  have twice: "sanitizeUrl (sanitizeUrl (Some ''http://http://example.com//'')) = Some ''example.com''"
    by (simp only: sanitize_example1 sanitize_example2)
  have differs: "sanitizeUrl (sanitizeUrl (Some ''http://http://example.com//''))
       \<noteq> sanitizeUrl (Some ''http://http://example.com//'')"
    by (simp add: sanitize_example1 sanitize_example2)
  have pre: "prefix ''http://'' ''http://example.com/''"
    by simp
  show ?thesis
  proof (intro conjI allI impI)
    fix r u assume "sanitizeUrl (Some r) = Some u"
    then show "\<exists>p q. trim r = p @ u @ q
         \<and> (p = [] \<or> toLowerCase p = ''http://'' \<or> toLowerCase p = ''https://'')
         \<and> (q = [] \<or> q = ''/'')"
      by (rule general)
  qed (rule cleanUrl_sanitizeUrl sanitize_example1 pre twice differs)+
qed

theorem sanitizeUrl_strips_once_witness:
  "sanitizeUrl (Some ''http://http://example.com//'') = Some ''http://example.com/''
   \<and> (\<exists>p q. trim ''http://http://example.com//'' = p @ ''http://example.com/'' @ q
         \<and> (p = [] \<or> toLowerCase p = ''http://'' \<or> toLowerCase p = ''https://'')
         \<and> (q = [] \<or> q = ''/''))"
proof (rule conjI)
  show ex: "sanitizeUrl (Some ''http://http://example.com//'') = Some ''http://example.com/''"
    by (rule sanitize_example1)
  show "\<exists>p q. trim ''http://http://example.com//'' = p @ ''http://example.com/'' @ q
         \<and> (p = [] \<or> toLowerCase p = ''http://'' \<or> toLowerCase p = ''https://'')
         \<and> (q = [] \<or> q = ''/'')"
    by (rule sanitizeUrl_strips_once_not_idempotent [THEN conjunct1, rule_format, OF ex])
qed

section \<open>Properties of the rate limiter\<close>

lemma check_result_cong:
  assumes "fresh l1 ip now = fresh l2 ip now" "maxHits l1 = maxHits l2" "windowMs l1 = windowMs l2"
  shows "snd (check l1 ip now) = snd (check l2 ip now)"
  using assms by (simp add: check_def Let_def split: list.splits)

lemma statusLimiter_below_limit:
  assumes "enat (length (fresh l ip now)) < maxHits l"
  shows "fst (statusLimiter l ip now) = l\<lparr>hits := (hits l)(ip \<mapsto> fresh l ip now)\<rparr>"
proof -
  have "\<not> maxHits l \<le> enat (length (fresh l ip now))"
    using assms by simp
  then show ?thesis
    by (simp add: statusLimiter_def check_def undo_def Let_def)
qed

lemma fresh_after_prune:
  assumes "now \<le> now'"
  shows "fresh (l\<lparr>hits := (hits l)(ip \<mapsto> fresh l ip now)\<rparr>) ip' now' = fresh l ip' now'"
proof (cases "ip' = ip")
  case False
  then show ?thesis by (simp add: fresh_def)
next
  case True
  have "filter (\<lambda>t. now' - windowMs l < t) (filter (\<lambda>t. now - windowMs l < t) ts)
          = filter (\<lambda>t. now' - windowMs l < t) ts" for ts
    using assms by (induction ts) auto
  with True show ?thesis
    by (simp add: fresh_def)
qed

text \<open>
  The claim of C2 as it is written fails: the \<open>check\<close> inside a status request stores
  the client's timestamps without the expired ones. A client whose only timestamp, 0, is
  older than the window of 120000 ms at time 200000 has no timestamp left after a status
  request.
\<close>

theorem status_changes_timestamps_counterexample:
  "hits \<lparr>maxHits = 15, windowMs = 120000, hits = [''10.0.0.1'' \<mapsto> [0]]\<rparr> ''10.0.0.1'' = Some [0]
   \<and> hits (fst (statusLimiter \<lparr>maxHits = 15, windowMs = 120000, hits = [''10.0.0.1'' \<mapsto> [0]]\<rparr>
                  ''10.0.0.1'' 200000)) ''10.0.0.1'' = Some []"
  by (simp add: statusLimiter_def check_def undo_def fresh_def Let_def)

text \<open>
  Claim C2, amended. For a client with fewer unexpired timestamps than \<open>maxHits\<close>, a
  status request leaves the limiter as it was but for this client's entry, which becomes
  the client's unexpired timestamps in their order (the expired ones are dropped, no
  timestamp is added); the limits are unchanged, and every later \<open>check\<close>, of any
  client, gives the result it would have given without the status request, so the
  request uses none of the budget.
\<close>

theorem status_keeps_budget_below_limit:
  assumes "enat (length (fresh l ip now)) < maxHits l"
  shows "hits (fst (statusLimiter l ip now)) = (hits l)(ip \<mapsto> fresh l ip now)
       \<and> maxHits (fst (statusLimiter l ip now)) = maxHits l
       \<and> windowMs (fst (statusLimiter l ip now)) = windowMs l
       \<and> (\<forall>ip' now'. now \<le> now' \<longrightarrow>
            snd (check (fst (statusLimiter l ip now)) ip' now') = snd (check l ip' now'))"
proof -
  let ?l' = "l\<lparr>hits := (hits l)(ip \<mapsto> fresh l ip now)\<rparr>"
  have eq: "fst (statusLimiter l ip now) = ?l'"
    by (rule statusLimiter_below_limit [OF assms])
  have "snd (check ?l' ip' now') = snd (check l ip' now')" if "now \<le> now'" for ip' now'
  proof (rule check_result_cong)
    show "fresh ?l' ip' now' = fresh l ip' now'"
      by (rule fresh_after_prune [OF that])
  qed simp_all
  then show ?thesis
    unfolding eq by simp
qed

theorem status_keeps_budget_below_limit_witness:
  "enat (length (fresh \<lparr>maxHits = 15, windowMs = 120000, hits = [''10.0.0.1'' \<mapsto> [0, 100000]]\<rparr>
                   ''10.0.0.1'' 200000)) < 15
   \<and> hits (fst (statusLimiter \<lparr>maxHits = 15, windowMs = 120000, hits = [''10.0.0.1'' \<mapsto> [0, 100000]]\<rparr>
                  ''10.0.0.1'' 200000)) = [''10.0.0.1'' \<mapsto> [100000]]
   \<and> snd (check (fst (statusLimiter
                  \<lparr>maxHits = 15, windowMs = 120000, hits = [''10.0.0.1'' \<mapsto> [0, 100000]]\<rparr>
                  ''10.0.0.1'' 200000)) ''10.0.0.1'' 200001)
       = snd (check \<lparr>maxHits = 15, windowMs = 120000, hits = [''10.0.0.1'' \<mapsto> [0, 100000]]\<rparr>
                ''10.0.0.1'' 200001)"
proof -
  let ?l = "\<lparr>maxHits = 15, windowMs = 120000, hits = [''10.0.0.1'' \<mapsto> [0, 100000]]\<rparr>"
  have fr: "fresh ?l ''10.0.0.1'' 200000 = [100000]"
    by (simp add: fresh_def)
  have below: "enat (length (fresh ?l ''10.0.0.1'' 200000)) < maxHits ?l"
    unfolding fr by (simp add: numeral_eq_enat)
  have le: "(200000::int) \<le> 200001" by simp
  from status_keeps_budget_below_limit [OF below] le fr
  have "hits (fst (statusLimiter ?l ''10.0.0.1'' 200000)) = (hits ?l)(''10.0.0.1'' \<mapsto> [100000])"
    and "snd (check (fst (statusLimiter ?l ''10.0.0.1'' 200000)) ''10.0.0.1'' 200001)
           = snd (check ?l ''10.0.0.1'' 200001)"
    by simp_all
  with below show ?thesis by simp
qed

text \<open>
  What the amended claim leaves out: a client at the limit. \<open>check\<close> refuses and adds no
  timestamp, and the pop that follows removes the client's newest recorded request, so
  the next \<open>check\<close> is allowed where it would have been refused.
\<close>

lemma status_at_limit_frees_a_slot:
  "\<not> allowed (snd (check \<lparr>maxHits = 1, windowMs = 120000, hits = [''10.0.0.1'' \<mapsto> [100]]\<rparr>
                      ''10.0.0.1'' 200))
   \<and> hits (fst (statusLimiter \<lparr>maxHits = 1, windowMs = 120000, hits = [''10.0.0.1'' \<mapsto> [100]]\<rparr>
                  ''10.0.0.1'' 150)) ''10.0.0.1'' = Some []
   \<and> allowed (snd (check (fst (statusLimiter
                  \<lparr>maxHits = 1, windowMs = 120000, hits = [''10.0.0.1'' \<mapsto> [100]]\<rparr>
                  ''10.0.0.1'' 150)) ''10.0.0.1'' 200))"
  by (simp add: statusLimiter_def check_def undo_def fresh_def Let_def one_enat_def)

section \<open>Properties of the pool\<close>

lemma findIndex_SomeD:
  "findIndex P xs = Some k \<Longrightarrow> k < length xs \<and> P (xs ! k)"
proof (induction xs arbitrary: k)
  case Nil
  then show ?case by simp
next
  case (Cons x xs)
  then show ?case
    by (cases "P x") (auto split: if_splits)
qed

lemma findIndex_cong_map:
  "map P xs = map P ys \<Longrightarrow> findIndex P xs = findIndex P ys"
proof (induction xs arbitrary: ys)
  case Nil
  then show ?case by simp
next
  case (Cons x xs)
  then obtain y ys' where ys: "ys = y # ys'" by (cases ys) auto
  with Cons show ?case by auto
qed

lemma findIndex_updInst:
  assumes "\<And>x. inst_id (f x) = inst_id x"
  shows "findIndex (\<lambda>x. inst_id x = i) (instances (updInst p k f))
         = findIndex (\<lambda>x. inst_id x = i) (instances p)"
proof (rule findIndex_cong_map)
  show "map (\<lambda>x. inst_id x = i) (instances (updInst p k f)) = map (\<lambda>x. inst_id x = i) (instances p)"
    by (simp add: updInst_def map_update assms) (metis list_update_id map_update)
qed

lemma recordFailure_found:
  assumes "findIndex (\<lambda>x. inst_id x = i) (instances p) = Some k"
  shows "recordFailure p i =
     (if consecutiveFailures (instances p ! k) + 1 \<ge> 3 \<and> i \<notin> recovering p
      then ((updInst (updInst p k (\<lambda>x. x\<lparr>consecutiveFailures := consecutiveFailures x + 1\<rparr>)) k
               (\<lambda>x. x\<lparr>ready := False\<rparr>))\<lparr>recovering := insert i (recovering p)\<rparr>, True)
      else (updInst p k (\<lambda>x. x\<lparr>consecutiveFailures := consecutiveFailures x + 1\<rparr>), False))"
proof -
  have k: "k < length (instances p)"
    using assms findIndex_SomeD by blast
  have fi: "findIndex (\<lambda>x. inst_id x = i)
              (instances (updInst p k (\<lambda>x. x\<lparr>consecutiveFailures := consecutiveFailures x + 1\<rparr>))) = Some k"
    using assms by (simp add: findIndex_updInst)
  have rec: "recovering (updInst p k f) = recovering p" for f
    by (simp add: updInst_def)
  have cf: "consecutiveFailures
              (instances (updInst p k (\<lambda>x. x\<lparr>consecutiveFailures := consecutiveFailures x + 1\<rparr>)) ! k)
            = consecutiveFailures (instances p ! k) + 1"
    using k by (simp add: updInst_def)
  show ?thesis
    unfolding recordFailure_def recoverBegin_def
    by (simp add: assms fi rec cf Let_def del: One_nat_def)
qed

lemma recordFailure_counter:
  assumes "findIndex (\<lambda>x. inst_id x = i) (instances p) = Some k"
  shows "consecutiveFailures (instances (fst (recordFailure p i)) ! k)
           = consecutiveFailures (instances p ! k) + 1"
    and "findIndex (\<lambda>x. inst_id x = i) (instances (fst (recordFailure p i))) = Some k"
    and "\<not> snd (recordFailure p i) \<Longrightarrow> recovering (fst (recordFailure p i)) = recovering p"
proof -
  have k: "k < length (instances p)"
    using assms findIndex_SomeD by blast
  show "consecutiveFailures (instances (fst (recordFailure p i)) ! k)
           = consecutiveFailures (instances p ! k) + 1"
    using k by (simp add: recordFailure_found [OF assms] updInst_def)
  have "map (\<lambda>x. inst_id x = i) (instances (fst (recordFailure p i)))
          = map (\<lambda>x. inst_id x = i) (instances p)"
    using k by (simp add: recordFailure_found [OF assms] updInst_def map_update)
       (metis list_update_id map_update)
  then show "findIndex (\<lambda>x. inst_id x = i) (instances (fst (recordFailure p i))) = Some k"
    using assms findIndex_cong_map by metis
  show "recovering (fst (recordFailure p i)) = recovering p" if "\<not> snd (recordFailure p i)"
    using that by (auto simp add: recordFailure_found [OF assms] updInst_def split: if_splits)
qed


lemma recordSuccess_found:
  assumes "findIndex (\<lambda>x. inst_id x = i) (instances p) = Some k"
  shows "recordSuccess p i = updInst p k (\<lambda>x. x\<lparr>consecutiveFailures := 0\<rparr>)"
  by (simp add: recordSuccess_def assms)

text \<open>
  Claim C5. For a session \<open>i\<close> of the pool (at position \<open>k\<close>): \<open>recordFailure\<close> adds one
  to the counter, and starts a recovery exactly when the counter reaches 3 or more and
  the session is not in the recovering set; so it never does while the session is
  recovering, and from a counter of 0 the first and the second failure start nothing and
  the third starts the recovery (the session enters the recovering set and is no longer
  ready). One \<open>recordSuccess\<close> sets the counter to 0.
\<close>

theorem recovery_on_third_consecutive_failure:
  assumes "findIndex (\<lambda>x. inst_id x = i) (instances p) = Some k"
  shows "(snd (recordFailure p i)
            = (consecutiveFailures (instances p ! k) + 1 \<ge> 3 \<and> i \<notin> recovering p))
       \<and> consecutiveFailures (instances (fst (recordFailure p i)) ! k)
            = consecutiveFailures (instances p ! k) + 1
       \<and> (i \<in> recovering p \<longrightarrow> \<not> snd (recordFailure p i))
       \<and> (snd (recordFailure p i) \<longrightarrow>
            i \<in> recovering (fst (recordFailure p i)) \<and> \<not> ready (instances (fst (recordFailure p i)) ! k))
       \<and> (consecutiveFailures (instances p ! k) = 0 \<and> i \<notin> recovering p \<longrightarrow>
            \<not> snd (recordFailure p i)
            \<and> \<not> snd (recordFailure (fst (recordFailure p i)) i)
            \<and> snd (recordFailure (fst (recordFailure (fst (recordFailure p i)) i)) i))
       \<and> consecutiveFailures (instances (recordSuccess p i) ! k) = 0"
proof -
  have k: "k < length (instances p)"
    using assms findIndex_SomeD by blast
  let ?p1 = "fst (recordFailure p i)"
  let ?p2 = "fst (recordFailure ?p1 i)"
  have trig: "snd (recordFailure q i)
            = (consecutiveFailures (instances q ! k) + 1 \<ge> 3 \<and> i \<notin> recovering q)"
    if "findIndex (\<lambda>x. inst_id x = i) (instances q) = Some k" for q
    by (simp add: recordFailure_found [OF that] del: One_nat_def)
  have f1: "findIndex (\<lambda>x. inst_id x = i) (instances ?p1) = Some k"
    by (rule recordFailure_counter(2) [OF assms])
  have f2: "findIndex (\<lambda>x. inst_id x = i) (instances ?p2) = Some k"
    by (rule recordFailure_counter(2) [OF f1])
  have c1: "consecutiveFailures (instances ?p1 ! k) = consecutiveFailures (instances p ! k) + 1"
    by (rule recordFailure_counter(1) [OF assms])
  have c2: "consecutiveFailures (instances ?p2 ! k) = consecutiveFailures (instances ?p1 ! k) + 1"
    by (rule recordFailure_counter(1) [OF f1])
  have started: "i \<in> recovering ?p1 \<and> \<not> ready (instances ?p1 ! k)" if "snd (recordFailure p i)"
    using that k by (simp add: recordFailure_found [OF assms] updInst_def split: if_splits)
  have three: "\<not> snd (recordFailure p i) \<and> \<not> snd (recordFailure ?p1 i) \<and> snd (recordFailure ?p2 i)"
    if z: "consecutiveFailures (instances p ! k) = 0" and nr: "i \<notin> recovering p"
  proof -
    have n1: "\<not> snd (recordFailure p i)"
      using z by (simp add: trig [OF assms])
    then have r1: "recovering ?p1 = recovering p"
      by (rule recordFailure_counter(3) [OF assms])
    have n2: "\<not> snd (recordFailure ?p1 i)"
      using z c1 by (simp add: trig [OF f1])
    then have r2: "recovering ?p2 = recovering ?p1"
      by (rule recordFailure_counter(3) [OF f1])
    have "snd (recordFailure ?p2 i)"
      using z c1 c2 r1 r2 nr by (simp add: trig [OF f2])
    with n1 n2 show ?thesis by blast
  qed
  have succ: "consecutiveFailures (instances (recordSuccess p i) ! k) = 0"
    using k by (simp add: recordSuccess_found [OF assms] updInst_def)
  from trig [OF assms] c1 started three succ show ?thesis
    by blast
qed

theorem recovery_on_third_consecutive_failure_witness:
  "findIndex (\<lambda>x. inst_id x = 0) (instances (initAll (addInstance newPool 0) (\<lambda>k. (Ok, Ok)))) = Some 0
   \<and> consecutiveFailures (instances (initAll (addInstance newPool 0) (\<lambda>k. (Ok, Ok))) ! 0) = 0
   \<and> 0 \<notin> recovering (initAll (addInstance newPool 0) (\<lambda>k. (Ok, Ok)))
   \<and> \<not> snd (recordFailure (initAll (addInstance newPool 0) (\<lambda>k. (Ok, Ok))) 0)
   \<and> snd (recordFailure (fst (recordFailure (fst (recordFailure
           (initAll (addInstance newPool 0) (\<lambda>k. (Ok, Ok))) 0)) 0)) 0)"
proof -
  let ?p = "initAll (addInstance newPool 0) (\<lambda>k. (Ok, Ok))"
  have f: "findIndex (\<lambda>x. inst_id x = 0) (instances ?p) = Some 0"
    by (simp add: initAll_def addInstance_def newPool_def initInstance_def launched_def)
  have z: "consecutiveFailures (instances ?p ! 0) = 0"
    by (simp add: initAll_def addInstance_def newPool_def initInstance_def launched_def)
  have r: "0 \<notin> recovering ?p"
    by (simp add: initAll_def addInstance_def newPool_def)
  from recovery_on_third_consecutive_failure [OF f] z r f show ?thesis
    by blast
qed

lemma acquire_GrantedD:
  assumes "snd (acquire p w) = Granted l"
  shows "l_slot l < length (instances p) \<and> ready (instances p ! l_slot l) \<and> \<not> busy (instances p ! l_slot l)"
proof (cases "findIndex (\<lambda>i. ready i \<and> \<not> busy i) (instances p)")
  case None
  with assms show ?thesis by (simp add: acquire_def Let_def)
next
  case (Some k)
  with assms have "l_slot l = k"
    by (auto simp: acquire_def leaseOf_def Let_def)
  with findIndex_SomeD [OF Some] show ?thesis by simp
qed

lemma acquire_QueuedD:
  assumes "snd (acquire p w) = Queued ns"
  shows "waiters (fst (acquire p w)) = waiters p @ [w] \<and> instances (fst (acquire p w)) = instances p"
  using assms by (cases "findIndex (\<lambda>i. ready i \<and> \<not> busy i) (instances p)") (simp_all add: acquire_def Let_def)

text \<open>
  Claim C7. When \<open>_releaseInstance\<close> runs on the entry at position \<open>k\<close> while waiters are
  queued, no entry of the pool changes (so a busy flag that is set stays set), the head
  of the queue is removed and is the waiter resolved, with the lease of this entry; a
  queued \<open>acquire\<close> had put its waiter at the end of the queue, so waiters are served in
  arrival order. With the flag still set, no \<open>acquire\<close> that follows is granted this
  entry. The release changes an entry (clears the busy flag) only when the queue is
  empty.
\<close>

theorem release_hands_slot_to_head_waiter:
  "(waiters p \<noteq> [] \<longrightarrow>
       instances (fst (releaseInstance p k)) = instances p
     \<and> waiters (fst (releaseInstance p k)) = tl (waiters p)
     \<and> (\<exists>ns. snd (releaseInstance p k) = HandedTo (hd (waiters p)) (leaseOf p k) ns)
     \<and> (busy (instances p ! k) \<longrightarrow>
          busy (instances (fst (releaseInstance p k)) ! k)
          \<and> (\<forall>w l. snd (acquire (fst (releaseInstance p k)) w) = Granted l \<longrightarrow> l_slot l \<noteq> k)))
   \<and> (waiters p = [] \<and> k < length (instances p) \<longrightarrow>
         snd (releaseInstance p k) = Idle \<and> \<not> busy (instances (fst (releaseInstance p k)) ! k))
   \<and> (instances (fst (releaseInstance p k)) \<noteq> instances p \<longrightarrow> waiters p = [])
   \<and> (\<forall>w ns. snd (acquire p w) = Queued ns \<longrightarrow> waiters (fst (acquire p w)) = waiters p @ [w])"
proof -
  have handoff:
    "instances (fst (releaseInstance p k)) = instances p
     \<and> waiters (fst (releaseInstance p k)) = tl (waiters p)
     \<and> (\<exists>ns. snd (releaseInstance p k) = HandedTo (hd (waiters p)) (leaseOf p k) ns)"
    if "waiters p \<noteq> []"
    using that by (simp add: releaseInstance_def Let_def leaseOf_def)
  have no_jump: "l_slot l \<noteq> k"
    if ne: "waiters p \<noteq> []" and b: "busy (instances p ! k)"
      and g: "snd (acquire (fst (releaseInstance p k)) w) = Granted l" for w l
  proof
    assume "l_slot l = k"
    with acquire_GrantedD [OF g] have "\<not> busy (instances (fst (releaseInstance p k)) ! k)"
      by simp
    with handoff [OF ne] b show False by simp
  qed
  have idle: "snd (releaseInstance p k) = Idle \<and> \<not> busy (instances (fst (releaseInstance p k)) ! k)"
    if "waiters p = []" "k < length (instances p)"
    using that by (simp add: releaseInstance_def updInst_def)
  have only_empty: "waiters p = []" if "instances (fst (releaseInstance p k)) \<noteq> instances p"
    using that handoff by blast
  have fifo: "waiters (fst (acquire p w)) = waiters p @ [w]" if "snd (acquire p w) = Queued ns" for w ns
    using acquire_QueuedD [OF that] by simp
  from handoff no_jump idle only_empty fifo show ?thesis
    by (metis (no_types, lifting))
qed

theorem release_hands_slot_to_head_waiter_witness:
  "waiters \<lparr>instances = [\<lparr>inst_id = 0, checker = 0, busy = True, ready = True, inst_error = None,
                           consecutiveFailures = 0\<rparr>],
            waiters = [\<lparr>w_token = 1, w_notify = True\<rparr>, \<lparr>w_token = 2, w_notify = True\<rparr>],
            recovering = {}\<rparr> \<noteq> []
   \<and> snd (releaseInstance
        \<lparr>instances = [\<lparr>inst_id = 0, checker = 0, busy = True, ready = True, inst_error = None,
                        consecutiveFailures = 0\<rparr>],
         waiters = [\<lparr>w_token = 1, w_notify = True\<rparr>, \<lparr>w_token = 2, w_notify = True\<rparr>],
         recovering = {}\<rparr> 0)
       = HandedTo \<lparr>w_token = 1, w_notify = True\<rparr> \<lparr>l_slot = 0, l_id = 0, l_checker = 0\<rparr> [(2, 1)]
   \<and> busy (instances (fst (releaseInstance
        \<lparr>instances = [\<lparr>inst_id = 0, checker = 0, busy = True, ready = True, inst_error = None,
                        consecutiveFailures = 0\<rparr>],
         waiters = [\<lparr>w_token = 1, w_notify = True\<rparr>, \<lparr>w_token = 2, w_notify = True\<rparr>],
         recovering = {}\<rparr> 0)) ! 0)
   \<and> snd (acquire (fst (releaseInstance
        \<lparr>instances = [\<lparr>inst_id = 0, checker = 0, busy = True, ready = True, inst_error = None,
                        consecutiveFailures = 0\<rparr>],
         waiters = [\<lparr>w_token = 1, w_notify = True\<rparr>, \<lparr>w_token = 2, w_notify = True\<rparr>],
         recovering = {}\<rparr> 0)) \<lparr>w_token = 3, w_notify = True\<rparr>)
       = Queued [(2, 1), (3, 2)]"
proof -
  let ?p = "\<lparr>instances = [\<lparr>inst_id = 0, checker = 0, busy = True, ready = True, inst_error = None,
                           consecutiveFailures = 0\<rparr>],
            waiters = [\<lparr>w_token = 1, w_notify = True\<rparr>, \<lparr>w_token = 2, w_notify = True\<rparr>],
            recovering = {}\<rparr>"
  have ne: "waiters ?p \<noteq> []" by simp
  have b: "busy (instances ?p ! 0)" by simp
  have r: "snd (releaseInstance ?p 0)
       = HandedTo \<lparr>w_token = 1, w_notify = True\<rparr> \<lparr>l_slot = 0, l_id = 0, l_checker = 0\<rparr> [(2, 1)]"
    by (simp add: releaseInstance_def leaseOf_def notifyPositions_def Let_def enumerate_eq_zip)
  have a: "snd (acquire (fst (releaseInstance ?p 0)) \<lparr>w_token = 3, w_notify = True\<rparr>)
       = Queued [(2, 1), (3, 2)]"
    by (simp add: releaseInstance_def acquire_def notifyPositions_def Let_def enumerate_eq_zip)
  from release_hands_slot_to_head_waiter [of ?p 0] ne b
  have "busy (instances (fst (releaseInstance ?p 0)) ! 0)"
    by blast
  with ne r a show ?thesis by blast
qed

text \<open>
  Claim C9. In a pool without a ready entry \<open>allBusy\<close> is true, and so is the field
  \<open>busy\<close> of the status response, while \<open>ready\<close> is false; when no entry is busy either,
  the response reports 0 active scans next to \<open>busy = true\<close>. This is the pool before
  \<open>initAll\<close> and the pool in which both launch attempts of every entry failed.
\<close>

theorem allBusy_without_ready_instance:
  assumes "list_all (\<lambda>x. \<not> ready x) (instances p)"
  shows "allBusy p
       \<and> st_busy (snd (statusLegacy l p ip now))
       \<and> \<not> st_ready (snd (statusLegacy l p ip now))
       \<and> (list_all (\<lambda>x. \<not> busy x) (instances p) \<longrightarrow> st_activeScans (snd (statusLegacy l p ip now)) = 0)"
proof -
  have none: "filter ready (instances p) = []"
    using assms by (induction "instances p" arbitrary: p) (auto simp: list_all_iff filter_empty_conv)
  have ab: "allBusy p"
    by (simp add: allBusy_def none)
  have nr: "\<not> serverAnyReady p"
    using assms by (simp add: serverAnyReady_def list_all_iff list_ex_iff)
  have act: "activeScanCount p = 0" if "list_all (\<lambda>x. \<not> busy x) (instances p)"
    using that by (simp add: activeScanCount_def list_all_iff filter_empty_conv)
  show ?thesis
    using ab nr act by (simp add: statusLegacy_def split_def Let_def)
qed

theorem allBusy_without_ready_instance_witness:
  "list_all (\<lambda>x. \<not> ready x)
     (instances (initAll (addInstance newPool 0) (\<lambda>k. (Failed ''launch'', Failed ''launch''))))
   \<and> list_all (\<lambda>x. \<not> busy x)
     (instances (initAll (addInstance newPool 0) (\<lambda>k. (Failed ''launch'', Failed ''launch''))))
   \<and> allBusy (initAll (addInstance newPool 0) (\<lambda>k. (Failed ''launch'', Failed ''launch'')))
   \<and> st_busy (snd (statusLegacy \<lparr>maxHits = 15, windowMs = 120000, hits = Map.empty\<rparr>
        (initAll (addInstance newPool 0) (\<lambda>k. (Failed ''launch'', Failed ''launch''))) ''10.0.0.1'' 0))
   \<and> st_activeScans (snd (statusLegacy \<lparr>maxHits = 15, windowMs = 120000, hits = Map.empty\<rparr>
        (initAll (addInstance newPool 0) (\<lambda>k. (Failed ''launch'', Failed ''launch''))) ''10.0.0.1'' 0)) = 0
   \<and> allBusy newPool"
proof -
  let ?p = "initAll (addInstance newPool 0) (\<lambda>k. (Failed ''launch'', Failed ''launch''))"
  have nr: "list_all (\<lambda>x. \<not> ready x) (instances ?p)"
    by (simp add: initAll_def addInstance_def newPool_def initInstance_def launchFailed_def)
  have nb: "list_all (\<lambda>x. \<not> busy x) (instances ?p)"
    by (simp add: initAll_def addInstance_def newPool_def initInstance_def launchFailed_def)
  have e: "list_all (\<lambda>x. \<not> ready x) (instances newPool)"
    by (simp add: newPool_def)
  from allBusy_without_ready_instance [OF nr] allBusy_without_ready_instance [OF e] nr nb
  show ?thesis by blast
qed

lemma healthProbe_skips_busy:
  "busy (instances p ! k) \<Longrightarrow> healthProbe p k probeFails = (p, False)"
  by (simp add: healthProbe_def Let_def)

text \<open>
  Claim C1, evaluated on the code. A pool of one ready session, two requests that fail
  in turn (each: \<open>acquire\<close>, then \<open>release()\<close> and \<open>recordFailure\<close> as the handlers call
  them), then a third request that holds the session while a fourth waits in the queue.
  When the third request fails, \<open>release()\<close> hands the session to the waiter, so it stays
  busy, and \<open>recordFailure\<close> reaches 3 and starts the recovery of that busy session:
  it is marked not ready and enters the recovering set while the waiter holds its
  lease. The health check leaves a busy session alone (\<open>healthProbe_skips_busy\<close>).
\<close>

theorem recovery_starts_on_busy_session:
  "(let p0 = initAll (addInstance newPool 0) (\<lambda>k. (Ok, Ok));
        a = \<lparr>w_token = 1, w_notify = True\<rparr>;
        b = \<lparr>w_token = 2, w_notify = True\<rparr>;
        p = pool_run p0
              [Acquire a, Release 0, RecordFailure 0,
               Acquire a, Release 0, RecordFailure 0,
               Acquire a, Acquire b];
        handed = snd (releaseInstance p 0);
        p' = fst (releaseInstance p 0);
        started = snd (recordFailure p' 0);
        p'' = fst (recordFailure p' 0)
    in handed = HandedTo b \<lparr>l_slot = 0, l_id = 0, l_checker = 0\<rparr> []
       \<and> busy (instances p' ! 0)
       \<and> started
       \<and> busy (instances p'' ! 0) \<and> \<not> ready (instances p'' ! 0) \<and> 0 \<in> recovering p'')"
  by code_simp

section \<open>Properties of the reply observers\<close>

text \<open>The first scan of the one-shot wait selects a message at or above the baseline only.\<close>

lemma firstNewBotReply_is_new:
  assumes "firstNewBotReply count botId msgs = Some r"
  shows "\<exists>i. count \<le> i \<and> i < length msgs \<and> isFromBot botId (msgs ! i) \<and> r = extractReply (msgs ! i)"
proof -
  from assms obtain m where m: "find (isFromBot botId) (rev (drop count msgs)) = Some m"
    and r: "r = extractReply m"
    by (auto simp: firstNewBotReply_def split: if_splits)
  have found: "x \<in> set xs \<and> P x" if "find P xs = Some x" for P :: "message \<Rightarrow> bool" and xs x
    using that by (induction xs) (auto split: if_splits)
  from found [OF m] have "m \<in> set (drop count msgs)" and bot: "isFromBot botId m"
    by simp_all
  then obtain j where j: "j < length (drop count msgs)" "drop count msgs ! j = m"
    by (auto simp: in_set_conv_nth)
  then have "count \<le> count + j \<and> count + j < length msgs \<and> msgs ! (count + j) = m"
    by auto
  with bot r show ?thesis by blast
qed

text \<open>
  Claim C3, evaluated on the code. The channel holds one message at the snapshot, an
  earlier reply of the bot, so the baseline count is 1. The one-shot scan does not
  select it. \<open>readBot\<close> of the streaming observer starts at position
  \<open>Math.max(0, count - 1) = 0\<close> and selects it, before any new message exists and also
  when the only new message is the command of the user; the streaming observer then
  passes the old reply to the callback and, when the callback accepts it and nothing
  newer arrives for 5 more polls, returns it as the reply to the command.
\<close>

theorem readBot_selects_message_before_baseline:
  "(let old = \<lparr>author_id = Some ''42'', bot_tag_el = True, html = ''<div>earlier reply</div>'',
               content = Some ''Results for example.org'', embed_descriptions = [],
               embed_wrappers = []\<rparr>;
        cmd = \<lparr>author_id = Some ''7'', bot_tag_el = False, html = ''<div>/check all example.com</div>'',
               content = Some ''/check all example.com'', embed_descriptions = [],
               embed_wrappers = []\<rparr>;
        before = [old]
    in firstNewBotReply (length before) ''42'' before = None
       \<and> firstNewBotReply (length before) ''42'' (before @ [cmd]) = None
       \<and> readBot (length before) ''42'' before = Some \<lparr>r_text = ''Results for example.org'', r_embeds = []\<rparr>
       \<and> readBot (length before) ''42'' (before @ [cmd])
            = Some \<lparr>r_text = ''Results for example.org'', r_embeds = []\<rparr>
       \<and> fst (sendAndStreamReply (\<lambda>c r. (r # c, Returned True)) [] ''42'' before True
                 (replicate 6 (Channel (before @ [cmd]))) (before @ [cmd]))
            = Inr \<lparr>r_text = ''Results for example.org'', r_embeds = []\<rparr>
       \<and> snd (sendAndStreamReply (\<lambda>c r. (r # c, Returned True)) [] ''42'' before True
                 (replicate 6 (Channel (before @ [cmd]))) (before @ [cmd]))
            = [\<lparr>r_text = ''Results for example.org'', r_embeds = []\<rparr>])"
  by code_simp

section \<open>Properties of the request handlers\<close>

text \<open>
  \<open>sanitizeUrl\<close> looks for the space character only: a tab inside the address passes.
\<close>

lemma sanitizeUrl_accepts_inner_tab:
  "sanitizeUrl (Some (''exam'' @ [CHR 0x09] @ ''ple.com'')) = Some (''exam'' @ [CHR 0x09] @ ''ple.com'')"
  by code_simp

text \<open>
  Claim C4, evaluated on the code. The legacy handler of \<open>/api/check-stream\<close> tests the
  parameter only for being present and not empty. With a ready session and budget left,
  the parameter \<open><script>\<close>, and likewise one with a blank inside, opens the stream:
  the session is acquired and the command carries the parameter as it came. The native
  handler, through \<open>sanitizeUrl\<close>, answers both with status 400.
\<close>

theorem legacy_check_stream_accepts_unvalidated_url:
  "(let l = \<lparr>maxHits = 15, windowMs = 120000, hits = Map.empty\<rparr>;
        p = initAll (addInstance newPool 0) (\<lambda>k. (Ok, Ok));
        w = \<lparr>w_token = 1, w_notify = True\<rparr>
    in snd (snd (checkStreamStart l p ''10.0.0.1'' 1000 (Some ''<script>'') w))
         = Inr (''/check all <script>'', Granted \<lparr>l_slot = 0, l_id = 0, l_checker = 0\<rparr>)
       \<and> busy (instances (fst (snd (checkStreamStart l p ''10.0.0.1'' 1000 (Some ''<script>'') w))) ! 0)
       \<and> snd (snd (checkStreamStart l p ''10.0.0.1'' 1000 (Some ''exam ple.com'') w))
         = Inr (''/check all exam ple.com'', Granted \<lparr>l_slot = 0, l_id = 0, l_checker = 0\<rparr>)
       \<and> snd (nativeCheckStreamAdmit l ''10.0.0.1'' 1000 (Some ''<script>'')) = Rejected 400
       \<and> snd (nativeCheckStreamAdmit l ''10.0.0.1'' 1000 (Some ''exam ple.com'')) = Rejected 400)"
  by code_simp

section \<open>Properties of the response parser\<close>

text \<open>
  Claim C8. The reply whose text is the four lines \<open>FortiGuard\<close>,
  \<open>Malware - Likely Blocked (took 212ms)\<close>, \<open>...\<close> and
  \<open>All checkers use the default settings.\<close>, with no embed, parses to exactly one
  platform, named \<open>FortiGuard\<close>, with status blocked, category \<open>Malware\<close> and 212
  milliseconds, and to a note that ends in \<open>default settings.\<close>
\<close>

theorem parse_fortiguard_example:
  "res_platforms (parseBotResponse
      \<lparr>r_text = ''FortiGuard'' @ [CHR 0x0A] @ ''Malware - Likely Blocked (took 212ms)'' @ [CHR 0x0A]
                 @ ''...'' @ [CHR 0x0A] @ ''All checkers use the default settings.'',
       r_embeds = []\<rparr>)
     = [\<lparr>p_name = ''FortiGuard'', p_category = ''Malware'', p_status = Blocked,
         p_detail = ''Likely Blocked'', p_ms = Some 212, p_icon = NoIcon\<rparr>]
   \<and> res_note (parseBotResponse
      \<lparr>r_text = ''FortiGuard'' @ [CHR 0x0A] @ ''Malware - Likely Blocked (took 212ms)'' @ [CHR 0x0A]
                 @ ''...'' @ [CHR 0x0A] @ ''All checkers use the default settings.'',
       r_embeds = []\<rparr>)
     = Some ''All checkers use the default settings.''
   \<and> suffix ''default settings.'' ''All checkers use the default settings.''"
  by code_simp

section \<open>Properties of the streaming observer\<close>

lemma currentFull_not_empty: "currentFull u \<noteq> []"
  by (simp add: currentFull_def)

lemma observe_changed:
  assumes "currentFull u \<noteq> lastText s"
  shows "lastText (observe cb s u) = currentFull u"
    and "unchangedCount (observe cb s u) = 0"
    and "cbState (observe cb s u) = fst (cb (cbState s) u)"
    and "contentComplete (observe cb s u) = (snd (cb (cbState s) u) \<noteq> Returned False)"
  using assms by (auto simp: observe_def split_def Let_def split: cb_outcome.splits)

lemma observe_unchanged:
  assumes "currentFull u = lastText s"
  shows "lastText (observe cb s u) = lastText s"
    and "unchangedCount (observe cb s u) = unchangedCount s + 1"
    and "cbState (observe cb s u) = cbState s"
    and "contentComplete (observe cb s u) = contentComplete s"
  using assms by (simp_all add: observe_def)

lemma streamLoop_Channel_None:
  "readBot n b m = None \<Longrightarrow> streamLoop cb n b s (Channel m # ps) = streamLoop cb n b s ps"
  by simp

lemma streamLoop_Channel_Some:
  "readBot n b m = Some u \<Longrightarrow>
   streamLoop cb n b s (Channel m # ps) =
     (if contentComplete (observe cb s u) \<and> unchangedCount (observe cb s u) \<ge> 5
      then Stable u (cbState (observe cb s u))
      else streamLoop cb n b (observe cb s u) ps)"
  by (simp add: Let_def)

lemma streamLoop_no_abort:
  assumes "Aborted \<notin> set polls"
  shows "streamLoop cb n b s polls \<noteq> Broke s'"
  using assms
proof (induction polls arbitrary: s)
  case Nil
  then show ?case by simp
next
  case (Cons p polls)
  then obtain m where p: "p = Channel m" by (cases p) auto
  from Cons have ih: "streamLoop cb n b t polls \<noteq> Broke s'" for t by simp
  show ?case
  proof (cases "readBot n b m")
    case None
    with p ih show ?thesis by simp
  next
    case (Some u)
    with p ih show ?thesis
      by (simp add: streamLoop_Channel_Some del: streamLoop.simps)
  qed
qed

lemma stableRun_empty_text: "stableRun n b [] k polls = None"
proof (induction polls arbitrary: k)
  case Nil
  then show ?case by simp
next
  case (Cons p polls)
  show ?case
  proof (cases p)
    case Aborted
    then show ?thesis by simp
  next
    case (Channel m)
    with Cons currentFull_not_empty show ?thesis
      by (cases "readBot n b m") auto
  qed
qed

text \<open>
  An early return of the loop, from any state that has not met the exit test yet: either
  an update inside \<open>polls\<close> was the last one passed to the callback, which did not answer
  \<open>false\<close>, and 5 unchanged reads followed it; or the state was complete already and
  the unchanged reads it still lacked came first.
\<close>

lemma streamLoop_Stable_cases:
  assumes "streamLoop cb n b s polls = Stable r c"
    and "\<not> (contentComplete s \<and> unchangedCount s \<ge> 5)"
  shows "(\<exists>pre m rest s1 u.
            polls = pre @ Channel m # rest
          \<and> streamLoop cb n b s pre = TimedOut s1
          \<and> readBot n b m = Some u \<and> currentFull u \<noteq> lastText s1
          \<and> snd (cb (cbState s1) u) \<noteq> Returned False
          \<and> c = fst (cb (cbState s1) u)
          \<and> stableRun n b (currentFull u) 5 rest = Some r)
       \<or> (contentComplete s \<and> c = cbState s
          \<and> stableRun n b (lastText s) (5 - unchangedCount s) polls = Some r)"
  using assms
proof (induction polls arbitrary: s)
  case Nil
  then show ?case by simp
next
  case (Cons p polls)
  show ?case
  proof (cases p)
    case Aborted
    with Cons.prems show ?thesis by simp
  next
    case (Channel m)
    show ?thesis
    proof (cases "readBot n b m")
      case None
      with Channel Cons.prems have run: "streamLoop cb n b s polls = Stable r c"
        by simp
      from Cons.IH [OF run Cons.prems(2)] show ?thesis
      proof (elim disjE exE conjE)
        fix pre m' rest s1 u
        assume h: "polls = pre @ Channel m' # rest" "streamLoop cb n b s pre = TimedOut s1"
          "readBot n b m' = Some u" "currentFull u \<noteq> lastText s1"
          "snd (cb (cbState s1) u) \<noteq> Returned False" "c = fst (cb (cbState s1) u)"
          "stableRun n b (currentFull u) 5 rest = Some r"
        have 1: "p # polls = (Channel m # pre) @ Channel m' # rest"
          using h(1) Channel by simp
        have 2: "streamLoop cb n b s (Channel m # pre) = TimedOut s1"
          using h(2) None by simp
        from 1 2 h(3-7) show ?thesis by blast
      next
        assume h: "contentComplete s" "c = cbState s"
          "stableRun n b (lastText s) (5 - unchangedCount s) polls = Some r"
        then have "stableRun n b (lastText s) (5 - unchangedCount s) (p # polls) = Some r"
          using Channel None by simp
        with h(1,2) show ?thesis by blast
      qed
    next
      case (Some cur)
      let ?s' = "observe cb s cur"
      note step = streamLoop_Channel_Some [OF Some, of cb s polls]
      show ?thesis
      proof (cases "currentFull cur = lastText s")
        case True
        note same = observe_unchanged [OF True, of cb]
        show ?thesis
        proof (cases "contentComplete ?s' \<and> unchangedCount ?s' \<ge> 5")
          case True
          with Cons.prems(1) Channel step have rc: "r = cur" "c = cbState ?s'"
            by simp_all
          from True same Cons.prems(2) have cc: "contentComplete s" and uc: "unchangedCount s = 4"
            by auto
          have "stableRun n b (lastText s) (5 - unchangedCount s) (p # polls) = Some r"
            using Channel Some \<open>currentFull cur = lastText s\<close> uc rc by simp
          with cc rc same show ?thesis by simp
        next
          case False
          with Cons.prems(1) Channel step have run: "streamLoop cb n b ?s' polls = Stable r c"
            by simp
          from Cons.IH [OF run False] show ?thesis
          proof (elim disjE exE conjE)
            fix pre m' rest s1 u
            assume h: "polls = pre @ Channel m' # rest" "streamLoop cb n b ?s' pre = TimedOut s1"
              "readBot n b m' = Some u" "currentFull u \<noteq> lastText s1"
              "snd (cb (cbState s1) u) \<noteq> Returned False" "c = fst (cb (cbState s1) u)"
              "stableRun n b (currentFull u) 5 rest = Some r"
            have 1: "p # polls = (Channel m # pre) @ Channel m' # rest"
              using h(1) Channel by simp
            have 2: "streamLoop cb n b s (Channel m # pre) = TimedOut s1"
              using h(2) False streamLoop_Channel_Some [OF Some, of cb s pre] by simp
            from 1 2 h(3-7) show ?thesis by blast
          next
            assume h: "contentComplete ?s'" "c = cbState ?s'"
              "stableRun n b (lastText ?s') (5 - unchangedCount ?s') polls = Some r"
            from h(1) False same have lt: "unchangedCount s + 1 < 5"
              by simp
            from lt have big: "\<not> 5 - unchangedCount s \<le> 1"
              by arith
            have "stableRun n b (lastText s) (5 - unchangedCount s) (p # polls)
                    = stableRun n b (lastText s) (5 - unchangedCount s - 1) polls"
              unfolding Channel using Some \<open>currentFull cur = lastText s\<close> big
              by (simp del: One_nat_def)
            also have "\<dots> = Some r"
              using h(3) same by simp
            finally show ?thesis
              using h(1,2) same by simp
          qed
        qed
      next
        case False
        note changed = observe_changed [OF False, of cb]
        have noexit: "\<not> (contentComplete ?s' \<and> unchangedCount ?s' \<ge> 5)"
          using changed by simp
        with Cons.prems(1) Channel step have run: "streamLoop cb n b ?s' polls = Stable r c"
          by simp
        from Cons.IH [OF run noexit] show ?thesis
        proof (elim disjE exE conjE)
          fix pre m' rest s1 u
          assume h: "polls = pre @ Channel m' # rest" "streamLoop cb n b ?s' pre = TimedOut s1"
            "readBot n b m' = Some u" "currentFull u \<noteq> lastText s1"
            "snd (cb (cbState s1) u) \<noteq> Returned False" "c = fst (cb (cbState s1) u)"
            "stableRun n b (currentFull u) 5 rest = Some r"
          have 1: "p # polls = (Channel m # pre) @ Channel m' # rest"
            using h(1) Channel by simp
          have 2: "streamLoop cb n b s (Channel m # pre) = TimedOut s1"
            using h(2) noexit streamLoop_Channel_Some [OF Some, of cb s pre] by simp
          from 1 2 h(3-7) show ?thesis by blast
        next
          assume h: "contentComplete ?s'" "c = cbState ?s'"
            "stableRun n b (lastText ?s') (5 - unchangedCount ?s') polls = Some r"
          have 1: "p # polls = [] @ Channel m # polls"
            using Channel by simp
          have 2: "streamLoop cb n b s [] = TimedOut s"
            by simp
          have 3: "snd (cb (cbState s) cur) \<noteq> Returned False"
            using h(1) changed by simp
          have 4: "c = fst (cb (cbState s) cur)"
            using h(2) changed by simp
          have 5: "stableRun n b (currentFull cur) 5 polls = Some r"
            using h(3) changed by simp
          from 1 2 Some False 3 4 5 show ?thesis by blast
        qed
      qed
    qed
  qed
qed

lemma streamLoop_Stable_from_init:
  assumes "streamLoop cb n b (streamInit c0) polls = Stable r c"
  shows "\<exists>pre m rest s1 u.
            polls = pre @ Channel m # rest
          \<and> streamLoop cb n b (streamInit c0) pre = TimedOut s1
          \<and> readBot n b m = Some u \<and> currentFull u \<noteq> lastText s1
          \<and> snd (cb (cbState s1) u) \<noteq> Returned False
          \<and> c = fst (cb (cbState s1) u)
          \<and> stableRun n b (currentFull u) 5 rest = Some r"
proof -
  have init: "\<not> (contentComplete (streamInit c0) \<and> unchangedCount (streamInit c0) \<ge> 5)"
    by (simp add: streamInit_def)
  have "stableRun n b (lastText (streamInit c0)) (5 - unchangedCount (streamInit c0)) polls \<noteq> Some r"
    by (simp add: streamInit_def stableRun_empty_text)
  with streamLoop_Stable_cases [OF assms init] show ?thesis
    by blast
qed

section \<open>The parser never returns a name twice\<close>

lemma namesOk_push:
  assumes "namesOk st" "name \<notin> set (seen st)" "p_name p = name"
  shows "namesOk (push (addSeen st name) p)"
  using assms by (auto simp: namesOk_def push_def addSeen_def)

lemma namesOk_addSeen: "namesOk st \<Longrightarrow> namesOk (addSeen st name)"
  by (auto simp: namesOk_def addSeen_def)

lemma namesOk_note: "namesOk (st\<lparr>p_note := x\<rparr>) = namesOk st"
  by (simp add: namesOk_def)

lemma namesOk_tryCompactLine: "namesOk st \<Longrightarrow> namesOk (tryCompactLine line st)"
  unfolding tryCompactLine_def
  by (auto simp: Let_def intro!: namesOk_push split: option.splits prod.splits list.splits)

lemma namesOk_scanLines_step:
  assumes st: "namesOk st"
    and A: "\<And>st'. namesOk st' \<Longrightarrow> namesOk (scanLines (nextLine # rest) st')"
    and B: "\<And>st'. namesOk st' \<Longrightarrow> namesOk (scanLines rest st')"
  shows "namesOk (scanLines (line # nextLine # rest) st)"
proof -
  have c: "namesOk (tryCompactLine line st)"
    using st by (rule namesOk_tryCompactLine)
  have n: "namesOk (st\<lparr>p_note := x\<rparr>)" for x
    using st by (simp add: namesOk_note)
  have a: "namesOk (addSeen st (trim line))"
    using st by (rule namesOk_addSeen)
  have p: "namesOk (push (addSeen st (trim line)) q)"
    if "trim line \<notin> set (seen st)" "p_name q = trim line" for q
    using st that by (rule namesOk_push)
  show ?thesis
    by (subst scanLines.simps(3))
      (auto simp: Let_def intro!: A B c n a p st split: option.splits prod.splits list.splits)
qed

lemma namesOk_scanLines: "namesOk st \<Longrightarrow> namesOk (scanLines ls st)"
proof (induction "length ls" arbitrary: ls st rule: less_induct)
  case less
  show ?case
  proof (cases ls)
    case Nil
    with less.prems show ?thesis by simp
  next
    case (Cons line ls')
    show ?thesis
    proof (cases ls')
      case Nil
      with Cons less.prems show ?thesis
        by (simp add: namesOk_note namesOk_tryCompactLine)
    next
      case (Cons nextLine rest)
      with \<open>ls = line # ls'\<close> have ls: "ls = line # nextLine # rest" by simp
      have A: "namesOk (scanLines (nextLine # rest) st')" if "namesOk st'" for st'
        using less.hyps [of "nextLine # rest" st'] that ls by simp
      have B: "namesOk (scanLines rest st')" if "namesOk st'" for st'
        using less.hyps [of rest st'] that ls by simp
      show ?thesis
        unfolding ls using less.prems A B by (rule namesOk_scanLines_step)
    qed
  qed
qed

lemma namesOk_sweepLine: "namesOk st \<Longrightarrow> namesOk (sweepLine st line)"
proof -
  assume st: "namesOk st"
  have c: "namesOk (tryCompactLine line st)"
    using st by (rule namesOk_tryCompactLine)
  have p: "namesOk (push (addSeen (tryCompactLine line st) name) q)"
    if "name \<notin> set (seen (tryCompactLine line st))" "p_name q = name" for q name
    using c that by (rule namesOk_push)
  show ?thesis
    unfolding sweepLine_def
    by (auto simp: Let_def intro!: c p st split: option.splits)
qed

lemma namesOk_sweep: "namesOk st \<Longrightarrow> namesOk (foldl sweepLine st ls)"
  by (induction ls arbitrary: st) (simp_all add: namesOk_sweepLine)

lemma parseBotResponse_distinct: "distinct (map p_name (res_platforms (parseBotResponse r)))"
proof -
  have 0: "namesOk \<lparr>platforms = [], seen = [], p_note = None\<rparr>"
    by (simp add: namesOk_def)
  have "namesOk (scanLines ls \<lparr>platforms = [], seen = [], p_note = None\<rparr>)" for ls
    using 0 by (rule namesOk_scanLines)
  then have "namesOk (if c then foldl sweepLine (scanLines ls \<lparr>platforms = [], seen = [], p_note = None\<rparr>) ls
                      else scanLines ls \<lparr>platforms = [], seen = [], p_note = None\<rparr>)" for c ls
    by (simp add: namesOk_sweep)
  then show ?thesis
    by (simp add: parseBotResponse_def Let_def namesOk_def)
qed

section \<open>When the streaming observer returns early\<close>

lemma streamLoop_never_complete:
  assumes cb: "\<And>c m u. Channel m \<in> set polls \<Longrightarrow> readBot n b m = Some u \<Longrightarrow> snd (cb c u) = Returned False"
    and inv: "contentComplete s \<longrightarrow> lastText s = []"
  shows "streamLoop cb n b s polls \<noteq> Stable r c"
  using assms
proof (induction polls arbitrary: s)
  case Nil
  then show ?case by simp
next
  case (Cons p polls)
  have cb': "snd (cb c' u) = Returned False" if "Channel m \<in> set polls" "readBot n b m = Some u" for c' m u
    using Cons.prems(1) [of m u c'] that by simp
  have ih: "streamLoop cb n b t polls \<noteq> Stable r c" if "contentComplete t \<longrightarrow> lastText t = []" for t
    using cb' that by (rule Cons.IH)
  show ?case
  proof (cases p)
    case Aborted
    then show ?thesis by simp
  next
    case (Channel m)
    show ?thesis
    proof (cases "readBot n b m")
      case None
      with Channel ih [OF Cons.prems(2)] show ?thesis by simp
    next
      case (Some u)
      have f: "snd (cb (cbState s) u) = Returned False"
        using Cons.prems(1) [of m u] Channel Some by simp
      have nc: "\<not> contentComplete (observe cb s u)"
      proof (cases "currentFull u = lastText s")
        case True
        with Cons.prems(2) currentFull_not_empty [of u] have "\<not> contentComplete s"
          by auto
        with True show ?thesis by (simp add: observe_unchanged)
      next
        case False
        then show ?thesis by (simp add: observe_changed f)
      qed
      then have "streamLoop cb n b (observe cb s u) polls \<noteq> Stable r c"
        by (intro ih) simp
      with nc Channel Some show ?thesis
        by (simp add: streamLoop_Channel_Some del: streamLoop.simps)
    qed
  qed
qed

lemma streamLoop_runs_to_timeout:
  assumes "\<And>c m u. Channel m \<in> set polls \<Longrightarrow> readBot n b m = Some u \<Longrightarrow> snd (cb c u) = Returned False"
    and "Aborted \<notin> set polls"
  shows "\<exists>s. streamLoop cb n b (streamInit c0) polls = TimedOut s"
proof (cases "streamLoop cb n b (streamInit c0) polls")
  case (Stable r c)
  have inv0: "contentComplete (streamInit c0) \<longrightarrow> lastText (streamInit c0) = []"
    by (simp add: streamInit_def)
  have "streamLoop cb n b (streamInit c0) polls \<noteq> Stable r c"
    using assms(1) inv0 by (rule streamLoop_never_complete)
  with Stable show ?thesis by simp
next
  case (Broke s)
  with streamLoop_no_abort [OF assms(2)] show ?thesis by blast
next
  case (TimedOut s)
  then show ?thesis by blast
qed

lemma sawNote_emitPlatform: "sawNote (foldl emitPlatform c ps) = sawNote c"
  by (induction ps arbitrary: c) (simp_all add: emitPlatform_def)

lemma onUpdate_result:
  "snd (onUpdate c u) =
     Returned (looksComplete (sawNote c \<or> (\<exists>n. res_note (parseBotResponse u) = Some n \<and> n \<noteq> []))
                 (parseBotResponse u))"
  by (cases "res_note (parseBotResponse u)")
    (simp_all add: onUpdate_def Let_def sawNote_emitPlatform looksComplete_def)

text \<open>
  Claim C6. When the polling loop of the streaming observer, run with the callback of
  the \<open>check-stream\<close> handler, returns before its polls are used up, then some update
  \<open>u\<close> was the last one passed to the callback, the callback returned \<open>true\<close> on it,
  which it does exactly when the parsed update has no loading result, the note has been
  seen in this update or an earlier one of the attempt, and at least 10 results, with
  distinct names, are not loading, and after \<open>u\<close> the reply was read unchanged 5 times in
  a row, the fifth read being the reply returned. And for any callback: when it answers
  \<open>false\<close> to every update the polls show and the abort flag is never set, the loop
  does not return early, it runs through all polls to the timeout. (The abort flag
  \<open>onUpdate._aborted\<close>, which no caller in the repository sets, leaves the loop as the
  timeout does and is the outcome \<open>Broke\<close>.)
\<close>

theorem stream_returns_early_only_when_complete_and_stable:
  "(streamLoop onUpdate n b (streamInit c0) polls = Stable r c \<longrightarrow>
      (\<exists>pre m rest s u.
          polls = pre @ Channel m # rest
        \<and> streamLoop onUpdate n b (streamInit c0) pre = TimedOut s
        \<and> readBot n b m = Some u \<and> currentFull u \<noteq> lastText s
        \<and> snd (onUpdate (cbState s) u) = Returned True
        \<and> \<not> list_ex (\<lambda>p. p_status p = Loading) (res_platforms (parseBotResponse u))
        \<and> (sawNote (cbState s) \<or> (\<exists>n. res_note (parseBotResponse u) = Some n \<and> n \<noteq> []))
        \<and> 10 \<le> length (filter (\<lambda>p. p_status p \<noteq> Loading) (res_platforms (parseBotResponse u)))
        \<and> distinct (map p_name (res_platforms (parseBotResponse u)))
        \<and> stableRun n b (currentFull u) 5 rest = Some r))
   \<and> ((\<forall>c m u. Channel m \<in> set polls' \<longrightarrow> readBot n' b' m = Some u \<longrightarrow> snd (cb c u) = Returned False)
        \<and> Aborted \<notin> set polls' \<longrightarrow>
      (\<exists>s. streamLoop cb n' b' (streamInit ci) polls' = TimedOut s))"
proof (intro conjI impI)
  assume "streamLoop onUpdate n b (streamInit c0) polls = Stable r c"
  from streamLoop_Stable_from_init [OF this]
  obtain pre m rest s u where h:
    "polls = pre @ Channel m # rest"
    "streamLoop onUpdate n b (streamInit c0) pre = TimedOut s"
    "readBot n b m = Some u" "currentFull u \<noteq> lastText s"
    "snd (onUpdate (cbState s) u) \<noteq> Returned False"
    "stableRun n b (currentFull u) 5 rest = Some r"
    by blast
  let ?seen = "sawNote (cbState s) \<or> (\<exists>n. res_note (parseBotResponse u) = Some n \<and> n \<noteq> [])"
  from h(5) have lc: "looksComplete ?seen (parseBotResponse u)"
    by (simp add: onUpdate_result)
  then have t: "snd (onUpdate (cbState s) u) = Returned True"
    by (simp add: onUpdate_result)
  from lc have parts:
    "\<not> list_ex (\<lambda>p. p_status p = Loading) (res_platforms (parseBotResponse u))"
    "?seen"
    "10 \<le> length (filter (\<lambda>p. p_status p \<noteq> Loading) (res_platforms (parseBotResponse u)))"
    by (simp_all add: looksComplete_def Let_def)
  from h(1-4) t parts parseBotResponse_distinct [of u] h(6)
  show "\<exists>pre m rest s u.
          polls = pre @ Channel m # rest
        \<and> streamLoop onUpdate n b (streamInit c0) pre = TimedOut s
        \<and> readBot n b m = Some u \<and> currentFull u \<noteq> lastText s
        \<and> snd (onUpdate (cbState s) u) = Returned True
        \<and> \<not> list_ex (\<lambda>p. p_status p = Loading) (res_platforms (parseBotResponse u))
        \<and> (sawNote (cbState s) \<or> (\<exists>n. res_note (parseBotResponse u) = Some n \<and> n \<noteq> []))
        \<and> 10 \<le> length (filter (\<lambda>p. p_status p \<noteq> Loading) (res_platforms (parseBotResponse u)))
        \<and> distinct (map p_name (res_platforms (parseBotResponse u)))
        \<and> stableRun n b (currentFull u) 5 rest = Some r"
    by blast
next
  assume a: "(\<forall>c m u. Channel m \<in> set polls' \<longrightarrow> readBot n' b' m = Some u \<longrightarrow> snd (cb c u) = Returned False)
        \<and> Aborted \<notin> set polls'"
  show "\<exists>s. streamLoop cb n' b' (streamInit ci) polls' = TimedOut s"
  proof (rule streamLoop_runs_to_timeout)
    show "Aborted \<notin> set polls'" using a by simp
    show "snd (cb c u) = Returned False" if "Channel m \<in> set polls'" "readBot n' b' m = Some u" for c m u
      using a that by blast
  qed
qed

lemma sample_complete_run:
  "(case streamLoop onUpdate 0 ''42'' (streamInit \<lparr>sentPlatforms = [], sawNote = False, events = []\<rparr>)
          (replicate 6 (Channel [sampleMessage 10 True])) of
      Stable r c \<Rightarrow> r = \<lparr>r_text = sampleText 10 True, r_embeds = []\<rparr> \<and> sawNote c \<and> length (sentPlatforms c) = 10
    | Broke s \<Rightarrow> False
    | TimedOut s \<Rightarrow> False)"
  by code_simp

lemma sample_incomplete_read:
  "readBot 0 ''42'' [sampleMessage 9 False] = Some \<lparr>r_text = sampleText 9 False, r_embeds = []\<rparr>"
  by code_simp

lemma sample_incomplete_count:
  "length (filter (\<lambda>p. p_status p \<noteq> Loading)
     (res_platforms (parseBotResponse \<lparr>r_text = sampleText 9 False, r_embeds = []\<rparr>))) = 9"
  by code_simp

theorem stream_returns_early_witness:
  "(\<exists>r c pre m rest (s::cs_state stream_state) u.
        streamLoop onUpdate 0 ''42'' (streamInit \<lparr>sentPlatforms = [], sawNote = False, events = []\<rparr>)
          (replicate 6 (Channel [sampleMessage 10 True])) = Stable r c
      \<and> replicate 6 (Channel [sampleMessage 10 True]) = pre @ Channel m # rest
      \<and> readBot 0 ''42'' m = Some u
      \<and> snd (onUpdate (cbState s) u) = Returned True
      \<and> 10 \<le> length (filter (\<lambda>p. p_status p \<noteq> Loading) (res_platforms (parseBotResponse u)))
      \<and> stableRun 0 ''42'' (currentFull u) 5 rest = Some r)
   \<and> (\<exists>s. streamLoop onUpdate 0 ''42'' (streamInit \<lparr>sentPlatforms = [], sawNote = False, events = []\<rparr>)
          (replicate 7 (Channel [sampleMessage 9 False])) = TimedOut s)"
proof -
  define c0 where "c0 = \<lparr>sentPlatforms = [], sawNote = False, events = []\<rparr>"
  define polls where "polls = replicate 6 (Channel [sampleMessage 10 True])"
  define out where "out = streamLoop onUpdate 0 ''42'' (streamInit c0) polls"
  define msg9 where "msg9 = sampleMessage 9 False"
  define u9 where "u9 = \<lparr>r_text = sampleText 9 False, r_embeds = []\<rparr>"
  define polls9 where "polls9 = replicate 7 (Channel [msg9])"
  have "case out of Stable r c \<Rightarrow>
            r = \<lparr>r_text = sampleText 10 True, r_embeds = []\<rparr> \<and> sawNote c \<and> length (sentPlatforms c) = 10
        | Broke s \<Rightarrow> False | TimedOut s \<Rightarrow> False"
    unfolding out_def c0_def polls_def by (rule sample_complete_run)
  then obtain r c where "out = Stable r c"
    by (cases out) simp_all
  then have run: "streamLoop onUpdate 0 ''42'' (streamInit c0) polls = Stable r c"
    unfolding out_def .
  note early = stream_returns_early_only_when_complete_and_stable
         [of 0 "''42''" c0 polls r c, THEN conjunct1, rule_format, OF run]
  then obtain pre m rest s u where h:
    "polls = pre @ Channel m # rest
        \<and> streamLoop onUpdate 0 ''42'' (streamInit c0) pre = TimedOut s
        \<and> readBot 0 ''42'' m = Some u \<and> currentFull u \<noteq> lastText s
        \<and> snd (onUpdate (cbState s) u) = Returned True
        \<and> \<not> list_ex (\<lambda>p. p_status p = Loading) (res_platforms (parseBotResponse u))
        \<and> (sawNote (cbState s) \<or> (\<exists>n. res_note (parseBotResponse u) = Some n \<and> n \<noteq> []))
        \<and> 10 \<le> length (filter (\<lambda>p. p_status p \<noteq> Loading) (res_platforms (parseBotResponse u)))
        \<and> distinct (map p_name (res_platforms (parseBotResponse u)))
        \<and> stableRun 0 ''42'' (currentFull u) 5 rest = Some r"
    by (elim exE)
  have first: "\<exists>r c pre m rest (s::cs_state stream_state) u.
        streamLoop onUpdate 0 ''42'' (streamInit c0) polls = Stable r c
      \<and> polls = pre @ Channel m # rest
      \<and> readBot 0 ''42'' m = Some u
      \<and> snd (onUpdate (cbState s) u) = Returned True
      \<and> 10 \<le> length (filter (\<lambda>p. p_status p \<noteq> Loading) (res_platforms (parseBotResponse u)))
      \<and> stableRun 0 ''42'' (currentFull u) 5 rest = Some r"
  proof -
    from h have h1: "polls = pre @ Channel m # rest" by (elim conjE)
    from h have h3: "readBot 0 ''42'' m = Some u" by (elim conjE)
    from h have h5: "snd (onUpdate (cbState s) u) = Returned True" by (elim conjE)
    from h have h8: "10 \<le> length (filter (\<lambda>p. p_status p \<noteq> Loading) (res_platforms (parseBotResponse u)))"
      by (elim conjE)
    from h have h10: "stableRun 0 ''42'' (currentFull u) 5 rest = Some r" by (elim conjE)
    show ?thesis
      apply (rule exI)+
      apply (intro conjI)
           apply (rule run)
          apply (rule h1)
         apply (rule h3)
        apply (rule h5)
       apply (rule h8)
      apply (rule h10)
      done
  qed
  have read9: "readBot 0 ''42'' [msg9] = Some u9"
    unfolding msg9_def u9_def by (rule sample_incomplete_read)
  have count9: "length (filter (\<lambda>p. p_status p \<noteq> Loading) (res_platforms (parseBotResponse u9))) = 9"
    unfolding u9_def by (rule sample_incomplete_count)
  have no9: "snd (onUpdate c' u9) = Returned False" for c'
    unfolding onUpdate_result looksComplete_def Let_def count9 by simp
  have answers: "snd (onUpdate c' u') = Returned False"
    if "Channel m' \<in> set polls9" "readBot 0 ''42'' m' = Some u'" for c' m' u'
  proof -
    from that(1) have "m' = [msg9]"
      unfolding polls9_def by simp
    with that(2) read9 have "u' = u9"
      by simp
    then show ?thesis
      using no9 by simp
  qed
  have noabort: "Aborted \<notin> set polls9"
    unfolding polls9_def by simp
  have hyp: "(\<forall>c m u. Channel m \<in> set polls9 \<longrightarrow> readBot 0 ''42'' m = Some u \<longrightarrow> snd (onUpdate c u) = Returned False)
        \<and> Aborted \<notin> set polls9"
  proof (intro conjI allI impI)
    fix c' m' u' assume "Channel m' \<in> set polls9" "readBot 0 ''42'' m' = Some u'"
    then show "snd (onUpdate c' u') = Returned False" by (rule answers)
  qed (rule noabort)
  have second: "\<exists>s. streamLoop onUpdate 0 ''42'' (streamInit c0) polls9 = TimedOut s"
    by (rule stream_returns_early_only_when_complete_and_stable
         [where polls' = polls9 and n' = 0 and b' = "''42''" and cb = onUpdate and ci = c0,
          THEN conjunct2, rule_format, OF hyp])
  from first second show ?thesis
    unfolding c0_def polls_def polls9_def msg9_def by (rule conjI)
qed


end
